theory Spec2Isabelle
  imports Main "HOL-Library.Sublist"
begin

section \<open>The chat relay of server.js\<close>

text \<open>
  server.js keeps three module-level variables (\<open>messageCount\<close>, \<open>messagesHistory\<close>,
  \<open>onlineUsers\<close>) and, for every connection, one closure variable \<open>currentUsername\<close>.
  Every socket event handler runs to completion before the next one starts, so a handler
  is a function from the state to the new state and the list of events it emits.
  The one asynchronous boundary, \<open>fs.writeFile\<close>, is split in two: the handler of
  \<open>image upload\<close> registers a write in flight, and the completion callback is an event
  of its own.

  Conventions of the model:
  \<^item> a display name, a message text and a file name are strings, as section 6 of the
    specification types the payloads; \<open>null\<close>/\<open>undefined\<close> is \<open>None\<close>;
  \<^item> a message identifier payload has an arbitrary type \<open>'p\<close>; the JavaScript builtin
    \<open>Number\<close> is a parameter \<open>Number :: 'p \<Rightarrow> nat option\<close>, \<open>None\<close> standing for every
    result that is not a non-negative integer (such a result is \<open>===\<close> to no identifier);
  \<^item> \<open>messageCount\<close> is a natural number: the counter of the source is a double, exact
    on the integers below \<open>2^53\<close>;
  \<^item> the clock and the random suffix of an upload are supplied with the event;
  \<^item> \<open>console.log\<close> and \<open>console.error\<close> are not modelled.
\<close>

subsection \<open>JavaScript helpers\<close>

type_synonym conn = string

text \<open>\<open>if (x)\<close> on a value that is \<open>null\<close> or a string: only a non-empty string passes.\<close>

fun truthy :: "string option \<Rightarrow> bool" where
  "truthy None = False"
| "truthy (Some s) = (s \<noteq> [])"

text \<open>
  \<open>onlineUsers\<close> is a plain object \<open>{}\<close>. An assignment \<open>obj[k] = v\<close> creates or
  overwrites the own property \<open>k\<close>, except for the key \<open>__proto__\<close>: that one is the
  accessor inherited from \<open>Object.prototype\<close>, whose setter ignores a value that is
  neither an object nor \<open>null\<close> (a socket id is a string). \<open>delete obj[k]\<close> removes the
  own property \<open>k\<close> when there is one.
\<close>

definition set_prop :: "(string \<rightharpoonup> 'v) \<Rightarrow> string \<Rightarrow> 'v \<Rightarrow> (string \<rightharpoonup> 'v)" where
  "set_prop obj k v = (if k = ''__proto__'' then obj else obj(k \<mapsto> v))"

definition delete_prop :: "(string \<rightharpoonup> 'v) \<Rightarrow> string \<Rightarrow> (string \<rightharpoonup> 'v)" where
  "delete_prop obj k = obj(k := None)"

text \<open>\<open>Array.prototype.findIndex\<close>: the first index whose element passes, \<open>-1\<close> as \<open>None\<close>.\<close>

fun findIndex :: "('a \<Rightarrow> bool) \<Rightarrow> 'a list \<Rightarrow> nat option" where
  "findIndex P [] = None"
| "findIndex P (x # xs) = (if P x then Some 0 else map_option Suc (findIndex P xs))"

text \<open>\<open>arr.splice(i, 1)\<close>: the array without its element at index \<open>i\<close>.\<close>

definition splice1 :: "nat \<Rightarrow> 'a list \<Rightarrow> 'a list" where
  "splice1 i xs = take i xs @ drop (Suc i) xs"

text \<open>
  \<open>Array.prototype.find\<close> is \<^const>\<open>List.find\<close>. The object it returns is then mutated in
  place; in the array that is an update of the first element that passes the test.
\<close>

fun mutate_found :: "('a \<Rightarrow> bool) \<Rightarrow> ('a \<Rightarrow> 'a) \<Rightarrow> 'a list \<Rightarrow> 'a list" where
  "mutate_found P f [] = []"
| "mutate_found P f (x # xs) = (if P x then f x # xs else x # mutate_found P f xs)"

text \<open>
  \<open>String.prototype.split\<close> with a string separator: the segments between the
  occurrences of the separator, found from left to right; an empty separator splits
  into single characters.
\<close>

function split_from :: "string \<Rightarrow> string \<Rightarrow> string \<Rightarrow> string list" where
  "split_from sep seg [] = [seg]"
| "split_from sep seg (c # cs) =
     (if sep \<noteq> [] \<and> prefix sep (c # cs)
      then seg # split_from sep [] (drop (length sep) (c # cs))
      else split_from sep (seg @ [c]) cs)"
  by pat_completeness auto
termination
  by (relation "measure (\<lambda>(sep, seg, s). length s)") auto

definition split :: "string \<Rightarrow> string \<Rightarrow> string list" where
  "split s sep = (if sep = [] then map (\<lambda>c. [c]) s else split_from sep [] s)"

text \<open>\<open>Array.prototype.pop\<close>, read for its result: the last element, \<open>undefined\<close> on \<open>[]\<close>.\<close>

fun pop :: "'a list \<Rightarrow> 'a option" where
  "pop [] = None"
| "pop (x # xs) = (if xs = [] then Some x else pop xs)"

text \<open>
  \<open>String.prototype.toLowerCase\<close> on ASCII: the letters A to Z move to a to z. No
  character outside ASCII has a lower case that is one of the letters of the allow-list
  below, so the test of the extension does not depend on the rest of Unicode.
\<close>

definition toLowerCase_char :: "char \<Rightarrow> char" where
  "toLowerCase_char c =
     (let n = (of_char c :: nat) in if 65 \<le> n \<and> n \<le> 90 then char_of (n + 32) else c)"

definition toLowerCase :: "string \<Rightarrow> string" where
  "toLowerCase s = map toLowerCase_char s"

subsection \<open>Data\<close>

text \<open>The object literal \<open>messageData\<close>; \<open>user\<close> is a copy of \<open>currentUsername\<close>.\<close>

record 'p message =
  id_m :: nat
  user :: "string option"
  text_m :: string
  replyToId :: "'p option"
  replyToText :: "string option"
  timestamp :: string
  seen :: bool

text \<open>The payload \<open>msg\<close> of \<open>chat message\<close>.\<close>

record 'p chat_payload =
  cp_text :: string
  cp_replyToId :: "'p option"
  cp_replyToText :: "string option"

text \<open>
  The module-level variables, the closure variable \<open>currentUsername\<close> of every
  connection (by socket id), and the writes \<open>fs.writeFile\<close> has not completed yet: the
  connection whose handler started the write and the \<open>newFileName\<close> of its closure.
\<close>

record 'p state =
  messageCount :: nat
  messagesHistory :: "'p message list"
  onlineUsers :: "string \<rightharpoonup> conn"
  currentUsername :: "conn \<Rightarrow> string option"
  writes :: "(conn \<times> string) list"

definition init :: "'p state" where
  "init = \<lparr> messageCount = 0, messagesHistory = [], onlineUsers = Map.empty,
            currentUsername = (\<lambda>c. None), writes = [] \<rparr>"

text \<open>What a handler emits: the event name with its payload, and who receives it.\<close>

datatype 'p outbound =
    LoadHistory "'p message list"
  | UserDisconnected "string option"
  | ChatMsg "'p message"
  | DeleteMsg 'p
  | EditConfirmed 'p string
  | MessageSeen nat
  | Typing string
  | StopTyping string

datatype 'p emit =
    ToSocket conn "'p outbound"
  | ToAll "'p outbound"
  | ToOthers conn "'p outbound"

subsection \<open>The handlers\<close>

definition set_username :: "conn \<Rightarrow> string \<Rightarrow> 'p state \<Rightarrow> 'p state \<times> 'p emit list" where
  "set_username c username s =
     (if username \<noteq> [] \<and> Some username \<noteq> currentUsername s c then
        let reg = (case currentUsername s c of
                     None \<Rightarrow> onlineUsers s
                   | Some old \<Rightarrow> if old \<noteq> [] then delete_prop (onlineUsers s) old
                                 else onlineUsers s)
        in (s\<lparr> currentUsername := (currentUsername s)(c := Some username),
                onlineUsers := set_prop reg username c \<rparr>,
            [ToSocket c (LoadHistory (messagesHistory s))])
      else (s, []))"

definition disconnect :: "conn \<Rightarrow> 'p state \<Rightarrow> 'p state \<times> 'p emit list" where
  "disconnect c s =
     (case currentUsername s c of
        None \<Rightarrow> (s, [])
      | Some name \<Rightarrow>
          if name \<noteq> [] then
            (s\<lparr> onlineUsers := delete_prop (onlineUsers s) name \<rparr>,
             [ToAll (UserDisconnected (Some name))])
          else (s, []))"

definition chat_message ::
  "conn \<Rightarrow> 'p chat_payload \<Rightarrow> string \<Rightarrow> 'p state \<Rightarrow> 'p state \<times> 'p emit list" where
  "chat_message c msg now s =
     (if \<not> truthy (currentUsername s c) then (s, [])
      else
        let messageData = \<lparr> id_m = messageCount s, user = currentUsername s c,
                             text_m = cp_text msg, replyToId = cp_replyToId msg,
                             replyToText = cp_replyToText msg, timestamp = now,
                             seen = False \<rparr>
        in (s\<lparr> messageCount := messageCount s + 1,
                messagesHistory := messagesHistory s @ [messageData] \<rparr>,
            [ToAll (ChatMsg messageData)]))"

definition delete_message ::
  "('p \<Rightarrow> nat option) \<Rightarrow> conn \<Rightarrow> 'p \<Rightarrow> 'p state \<Rightarrow> 'p state \<times> 'p emit list" where
  "delete_message Number c messageId s =
     (case findIndex (\<lambda>m. Some (id_m m) = Number messageId) (messagesHistory s) of
        None \<Rightarrow> (s, [])
      | Some messageIndex \<Rightarrow>
          if user (messagesHistory s ! messageIndex) = currentUsername s c then
            (s\<lparr> messagesHistory := splice1 messageIndex (messagesHistory s) \<rparr>,
             [ToAll (DeleteMsg messageId)])
          else (s, []))"

definition edit_message ::
  "('p \<Rightarrow> nat option) \<Rightarrow> conn \<Rightarrow> 'p \<Rightarrow> string \<Rightarrow> 'p state \<Rightarrow> 'p state \<times> 'p emit list" where
  "edit_message Number c data_id newText s =
     (case find (\<lambda>m. Some (id_m m) = Number data_id) (messagesHistory s) of
        None \<Rightarrow> (s, [])
      | Some message \<Rightarrow>
          if user message = currentUsername s c then
            (s\<lparr> messagesHistory :=
                   mutate_found (\<lambda>m. Some (id_m m) = Number data_id)
                     (\<lambda>m. m\<lparr> text_m := newText \<rparr>) (messagesHistory s) \<rparr>,
             [ToAll (EditConfirmed data_id newText)])
          else (s, []))"

definition mark_seen ::
  "('p \<Rightarrow> nat option) \<Rightarrow> conn \<Rightarrow> 'p \<Rightarrow> 'p state \<Rightarrow> 'p state \<times> 'p emit list" where
  "mark_seen Number c messageId s =
     (case find (\<lambda>m. Some (id_m m) = Number messageId) (messagesHistory s) of
        None \<Rightarrow> (s, [])
      | Some message \<Rightarrow>
          if \<not> seen message \<and> user message \<noteq> currentUsername s c then
            (s\<lparr> messagesHistory :=
                   mutate_found (\<lambda>m. Some (id_m m) = Number messageId)
                     (\<lambda>m. m\<lparr> seen := True \<rparr>) (messagesHistory s) \<rparr>,
             [ToAll (MessageSeen (id_m message))])
          else (s, []))"

definition typing :: "conn \<Rightarrow> string \<Rightarrow> 'p state \<Rightarrow> 'p state \<times> 'p emit list" where
  "typing c username s = (s, [ToOthers c (Typing username)])"

definition stop_typing :: "conn \<Rightarrow> string \<Rightarrow> 'p state \<Rightarrow> 'p state \<times> 'p emit list" where
  "stop_typing c username s = (s, [ToOthers c (StopTyping username)])"

definition allowed_extensions :: "string list" where
  "allowed_extensions = [''png'', ''jpg'', ''jpeg'', ''gif'', ''webp'', ''avif'']"

text \<open>
  \<open>data.fileName.split('.').pop().toLowerCase()\<close>: the text after the last dot, and the
  whole name when it has no dot, in lower case. \<open>None\<close> is the TypeError of calling
  \<open>toLowerCase\<close> on \<open>undefined\<close>; \<open>split\<close> with a non-empty separator never returns
  the empty array, so it does not occur (\<open>extension_defined\<close> below).
\<close>

definition extension :: "string \<Rightarrow> string option" where
  "extension fileName = map_option toLowerCase (pop (split fileName ''.''))"

text \<open>
  The handler of \<open>image upload\<close> up to the call of \<open>fs.writeFile\<close>, which returns at
  once. \<open>uniq\<close> is the value of \<open>Date.now() + '_' + Math.random().toString(36).substring(2)\<close>.
  The bytes written, \<open>data.fileData.split(';base64,').pop()\<close>, go to the disk and nowhere
  else; the outcome of the write is the \<open>err\<close> of the completion. The last case of the
  \<open>case\<close> is a \<open>pop\<close> that returned \<open>undefined\<close>, which does not occur.
\<close>

definition image_upload ::
  "conn \<Rightarrow> string \<Rightarrow> string \<Rightarrow> string \<Rightarrow> 'p state \<Rightarrow> 'p state \<times> 'p emit list" where
  "image_upload c fileData fileName uniq s =
     (if \<not> truthy (currentUsername s c) then (s, [])
      else
        case (pop (split fileData '';base64,''), extension fileName) of
          (Some base64Data, Some ext) \<Rightarrow>
            if ext \<notin> set allowed_extensions then (s, [])
            else
              let newFileName = uniq @ ''.'' @ ext
              in (s\<lparr> writes := writes s @ [(c, newFileName)] \<rparr>, [])
        | _ \<Rightarrow> (s, []))"

text \<open>
  The callback of \<open>fs.writeFile\<close> for the write at position \<open>k\<close> of the writes in
  flight; it runs once. \<open>err\<close> says whether the write failed.
\<close>

definition write_done ::
  "nat \<Rightarrow> bool \<Rightarrow> string \<Rightarrow> 'p state \<Rightarrow> 'p state \<times> 'p emit list" where
  "write_done k err now s =
     (if k < length (writes s) then
        let (c, newFileName) = writes s ! k;
            s1 = s\<lparr> writes := splice1 k (writes s) \<rparr>
        in if err then (s1, [])
           else
             let imageUrl = ''/uploads/'' @ newFileName;
                 messageData = \<lparr> id_m = messageCount s1, user = currentUsername s1 c,
                                 text_m = imageUrl, replyToId = None, replyToText = None,
                                 timestamp = now, seen = False \<rparr>
             in (s1\<lparr> messageCount := messageCount s1 + 1,
                      messagesHistory := messagesHistory s1 @ [messageData] \<rparr>,
                 [ToAll (ChatMsg messageData)])
      else (s, []))"

subsection \<open>Events and runs\<close>

datatype 'p event =
    SetUsername conn string
  | Disconnect conn
  | ChatMessage conn "'p chat_payload" string
  | DeleteMessage conn 'p
  | EditMessage conn 'p string
  | MarkSeen conn 'p
  | TypingEv conn string
  | StopTypingEv conn string
  | ImageUpload conn string string string
  | WriteDone nat bool string

fun step :: "('p \<Rightarrow> nat option) \<Rightarrow> 'p state \<Rightarrow> 'p event \<Rightarrow> 'p state \<times> 'p emit list" where
  "step Number s (SetUsername c username) = set_username c username s"
| "step Number s (Disconnect c) = disconnect c s"
| "step Number s (ChatMessage c msg now) = chat_message c msg now s"
| "step Number s (DeleteMessage c messageId) = delete_message Number c messageId s"
| "step Number s (EditMessage c data_id newText) = edit_message Number c data_id newText s"
| "step Number s (MarkSeen c messageId) = mark_seen Number c messageId s"
| "step Number s (TypingEv c username) = typing c username s"
| "step Number s (StopTypingEv c username) = stop_typing c username s"
| "step Number s (ImageUpload c fileData fileName uniq) = image_upload c fileData fileName uniq s"
| "step Number s (WriteDone k err now) = write_done k err now s"

text \<open>A run handles the events in their order of arrival and collects what is emitted.\<close>

fun run :: "('p \<Rightarrow> nat option) \<Rightarrow> 'p state \<Rightarrow> 'p event list \<Rightarrow> 'p state \<times> 'p emit list" where
  "run Number s [] = (s, [])"
| "run Number s (e # es) =
     (let (s1, out1) = step Number s e; (s2, out2) = run Number s1 es
      in (s2, out1 @ out2))"

subsection \<open>Reading a run\<close>

text \<open>
  The states a run from \<^const>\<open>init\<close> can reach keep three properties: the stored
  identifiers increase strictly, stay below the counter, and every stored author is a
  non-empty name; a write in flight belongs to a connection with a name; a bound name
  is never the empty string and a registry entry that points at a connection sits under
  that connection's bound name.
\<close>

definition store_ok :: "'p state \<Rightarrow> bool" where
  "store_ok s \<longleftrightarrow>
     sorted_wrt (<) (map id_m (messagesHistory s)) \<and>
     (\<forall>m\<in>set (messagesHistory s). id_m m < messageCount s \<and> truthy (user m))"

definition writes_ok :: "'p state \<Rightarrow> bool" where
  "writes_ok s \<longleftrightarrow> (\<forall>w\<in>set (writes s). truthy (currentUsername s (fst w)))"

definition names_ok :: "'p state \<Rightarrow> bool" where
  "names_ok s \<longleftrightarrow>
     (\<forall>c. currentUsername s c \<noteq> Some []) \<and>
     (\<forall>k c. onlineUsers s k = Some c \<longrightarrow> currentUsername s c = Some k)"

definition consistent :: "'p state \<Rightarrow> bool" where
  "consistent s \<longleftrightarrow> store_ok s \<and> writes_ok s \<and> names_ok s"

text \<open>The event by which connection \<open>c\<close> gets a name: \<open>set username\<close> with a non-empty string.\<close>

fun sets_name :: "conn \<Rightarrow> 'p event \<Rightarrow> bool" where
  "sets_name c (SetUsername c' username) = (c' = c \<and> username \<noteq> [])"
| "sets_name c _ = False"

text \<open>The messages created in a run, in the order of their \<open>chat message\<close> broadcasts.\<close>

fun created :: "'p emit list \<Rightarrow> 'p message list" where
  "created [] = []"
| "created (ToAll (ChatMsg m) # out) = m # created out"
| "created (_ # out) = created out"

text \<open>The identifiers deleted in a run, read off the \<open>delete message\<close> broadcasts.\<close>

fun deleted :: "('p \<Rightarrow> nat option) \<Rightarrow> 'p emit list \<Rightarrow> nat list" where
  "deleted Number [] = []"
| "deleted Number (ToAll (DeleteMsg messageId) # out) =
     (case Number messageId of
        None \<Rightarrow> deleted Number out
      | Some n \<Rightarrow> n # deleted Number out)"
| "deleted Number (_ # out) = deleted Number out"

text \<open>The events that can create a message: a chat message and a write that completes
  without an error.\<close>

fun creates :: "'p event \<Rightarrow> bool" where
  "creates (ChatMessage c msg now) = True"
| "creates (WriteDone k err now) = (\<not> err)"
| "creates _ = False"

text \<open>
  What one step does to the store, read together with what it emits: nothing (the
  identifiers stay, no message is announced, no deletion is announced), one message
  appended under the next identifier and announced, or one stored message removed and
  its identifier announced.
\<close>

definition unchanged_store :: "('p \<Rightarrow> nat option) \<Rightarrow> 'p state \<Rightarrow> 'p state \<times> 'p emit list \<Rightarrow> bool" where
  "unchanged_store Number s r \<longleftrightarrow>
     messageCount (fst r) = messageCount s \<and>
     map id_m (messagesHistory (fst r)) = map id_m (messagesHistory s) \<and>
     created (snd r) = [] \<and> deleted Number (snd r) = []"

definition appended :: "('p \<Rightarrow> nat option) \<Rightarrow> 'p state \<Rightarrow> 'p state \<times> 'p emit list \<Rightarrow> bool" where
  "appended Number s r \<longleftrightarrow>
     messageCount (fst r) = messageCount s + 1 \<and>
     (\<exists>m. id_m m = messageCount s \<and> messagesHistory (fst r) = messagesHistory s @ [m] \<and>
          created (snd r) = [m]) \<and>
     deleted Number (snd r) = []"

definition removed :: "('p \<Rightarrow> nat option) \<Rightarrow> 'p state \<Rightarrow> 'p state \<times> 'p emit list \<Rightarrow> bool" where
  "removed Number s r \<longleftrightarrow>
     messageCount (fst r) = messageCount s \<and>
     (\<exists>m\<in>set (messagesHistory s).
        messagesHistory (fst r) = filter (\<lambda>x. id_m x \<noteq> id_m m) (messagesHistory s) \<and>
        deleted Number (snd r) = [id_m m]) \<and>
     created (snd r) = []"

text \<open>The identifiers created so far are \<open>0, 1, ...\<close> up to the counter, and the store
  holds, in that order, those that no deletion announced.\<close>

definition trace_ok :: "('p \<Rightarrow> nat option) \<Rightarrow> 'p state \<times> 'p emit list \<Rightarrow> bool" where
  "trace_ok Number r \<longleftrightarrow>
     map id_m (created (snd r)) = [0..<messageCount (fst r)] \<and>
     map id_m (messagesHistory (fst r))
       = filter (\<lambda>i. i \<notin> set (deleted Number (snd r))) [0..<messageCount (fst r)] \<and>
     (\<forall>i\<in>set (deleted Number (snd r)). i < messageCount (fst r))"

subsection \<open>A scenario\<close>

text \<open>
  The scenario of section 8 of the specification: client A claims the name alice, client
  B claims bob, and A sends the text hi.
\<close>

definition hi :: "nat chat_payload" where
  "hi = \<lparr> cp_text = ''hi'', cp_replyToId = None, cp_replyToText = None \<rparr>"

definition hi_msg :: "nat message" where
  "hi_msg = \<lparr> id_m = 0, user = Some ''alice'', text_m = ''hi'', replyToId = None,
              replyToText = None, timestamp = ''09:00 AM'', seen = False \<rparr>"

definition alice_bob :: "nat event list" where
  "alice_bob = [SetUsername ''A'' ''alice'', SetUsername ''B'' ''bob'',
                ChatMessage ''A'' hi ''09:00 AM'']"

text \<open>
  The scenario goes on: B answers, A deletes the first message, B uploads a picture and
  the write completes.
\<close>

definition hello :: "nat chat_payload" where
  "hello = \<lparr> cp_text = ''hello'', cp_replyToId = Some 0, cp_replyToText = Some ''hi'' \<rparr>"

definition busy_day :: "nat event list" where
  "busy_day = alice_bob @
     [ChatMessage ''B'' hello ''09:01 AM'', DeleteMessage ''A'' 0,
      ImageUpload ''B'' ''data:image/png;base64,iVBORw0KGgo='' ''cat.PNG'' ''1700000000000_k3x9'',
      WriteDone 0 False ''09:02 AM'']"

text \<open>A state with a write in flight: after the first message, B uploads a picture.\<close>

definition upload_pending :: "nat event list" where
  "upload_pending = alice_bob @
     [ImageUpload ''B'' ''data:image/png;base64,iVBORw0KGgo='' ''cat.PNG'' ''1700000000000_k3x9'']"

definition cat_msg :: "nat message" where
  "cat_msg = \<lparr> id_m = 1, user = Some ''bob'', text_m = ''/uploads/1700000000000_k3x9.png'',
               replyToId = None, replyToText = None, timestamp = ''09:02 AM'', seen = False \<rparr>"

subsection \<open>The extension of a file name, as the specification words it\<close>

text \<open>
  The specification speaks of the file extension of the declared file name. In the usual
  sense a name has an extension when it has a dot that is not its first character, and
  the extension is the text after the last dot: \<open>photo.EXE\<close> has \<open>EXE\<close>,
  \<open>archive.tar.gz\<close> has \<open>gz\<close>, and \<open>png\<close> and \<open>.webp\<close> have none. This definition
  follows those words, not the source; \<^const>\<open>extension\<close> above is the source's.
\<close>

definition spec_extension :: "string \<Rightarrow> string option" where
  "spec_extension fileName =
     (let ext = rev (takeWhile (\<lambda>ch. ch \<noteq> CHR ''.'') (rev fileName));
          stem = rev (drop 1 (dropWhile (\<lambda>ch. ch \<noteq> CHR ''.'') (rev fileName)))
      in if CHR ''.'' \<in> set fileName \<and> stem \<noteq> [] then Some ext else None)"



section \<open>Auxiliary facts\<close>

subsection \<open>Lists\<close>

lemma run_snoc:
  "run Number s (es @ [e]) =
     (let (s1, out1) = run Number s es; (s2, out2) = step Number s1 e in (s2, out1 @ out2))"
  by (induction es arbitrary: s) (auto split: prod.splits)

lemma findIndex_None: "findIndex P xs = None \<longleftrightarrow> (\<forall>x\<in>set xs. \<not> P x)"
  by (induction xs) auto

lemma findIndex_Some:
  "findIndex P xs = Some i \<Longrightarrow> i < length xs \<and> P (xs ! i) \<and> (\<forall>j<i. \<not> P (xs ! j))"
proof (induction xs arbitrary: i)
  case Nil
  then show ?case by simp
next
  case (Cons x xs)
  show ?case
  proof (cases "P x")
    case True
    with Cons.prems show ?thesis by simp
  next
    case False
    with Cons.prems obtain k where k: "findIndex P xs = Some k" "i = Suc k"
      by auto
    from Cons.IH [OF k(1)] False k(2) show ?thesis
      by (auto simp: less_Suc_eq_0_disj)
  qed
qed

lemma find_findIndex: "find P xs = map_option (\<lambda>i. xs ! i) (findIndex P xs)"
  by (induction xs) (auto simp: option.map_comp comp_def)

lemma splice1_filter:
  "distinct (map k xs) \<Longrightarrow> i < length xs \<Longrightarrow>
     splice1 i xs = filter (\<lambda>x. k x \<noteq> k (xs ! i)) xs"
proof (induction xs arbitrary: i)
  case Nil
  then show ?case by simp
next
  case (Cons x xs)
  show ?case
  proof (cases i)
    case 0
    from Cons.prems(1) have "k x \<notin> k ` set xs" by simp
    then have "\<forall>y\<in>set xs. k y \<noteq> k x" by (metis imageI)
    then have "filter (\<lambda>y. k y \<noteq> k x) xs = xs"
      by (intro filter_True) simp
    with 0 show ?thesis by (simp add: splice1_def)
  next
    case (Suc j)
    with Cons.prems have j: "j < length xs" "distinct (map k xs)" "k x \<noteq> k (xs ! j)"
      by auto
    from Cons.IH [OF j(2) j(1)] j(3) Suc show ?thesis
      by (simp add: splice1_def)
  qed
qed

lemma mutate_found_map:
  "distinct (map k xs) \<Longrightarrow> find (\<lambda>x. k x = n) xs = Some m \<Longrightarrow>
     mutate_found (\<lambda>x. k x = n) f xs = map (\<lambda>x. if k x = k m then f x else x) xs"
proof (induction xs)
  case Nil
  then show ?case by simp
next
  case (Cons x xs)
  show ?case
  proof (cases "k x = n")
    case True
    with Cons.prems have "m = x" "k x \<notin> k ` set xs" by auto
    from this(2) have "\<forall>y\<in>set xs. k y \<noteq> k x" by (metis imageI)
    note mx = \<open>m = x\<close> this
    from mx have "map (\<lambda>y. if k y = k m then f y else y) xs = xs"
      by (intro map_idI) simp
    with True \<open>m = x\<close> show ?thesis by simp
  next
    case False
    with Cons.prems have "find (\<lambda>x. k x = n) xs = Some m" "distinct (map k xs)" by auto
    with Cons.IH have ih: "mutate_found (\<lambda>x. k x = n) f xs = map (\<lambda>x. if k x = k m then f x else x) xs"
      by simp
    from \<open>find (\<lambda>x. k x = n) xs = Some m\<close> have "k m = n"
      by (auto simp: find_Some_iff)
    with False ih show ?thesis by simp
  qed
qed

lemma mutate_found_list_update:
  "findIndex P xs = Some i \<Longrightarrow> mutate_found P f xs = xs[i := f (xs ! i)]"
  by (induction xs arbitrary: i) (auto split: if_splits)

lemma map_mutate_found:
  "(\<And>x. g (f x) = g x) \<Longrightarrow> map g (mutate_found P f xs) = map g xs"
  by (induction xs) auto


lemma set_splice1: "set (splice1 i xs) \<subseteq> set xs"
  unfolding splice1_def using set_take_subset [of i xs] set_drop_subset [of "Suc i" xs]
  by auto

lemma map_splice1: "map f (splice1 i xs) = splice1 i (map f xs)"
  by (simp add: splice1_def take_map drop_map)

lemma sorted_wrt_splice1:
  assumes "sorted_wrt R xs"
  shows "sorted_wrt R (splice1 i xs)"
proof -
  from assms have "sorted_wrt R (take i xs @ drop i xs)" by simp
  then have parts: "sorted_wrt R (take i xs)" "sorted_wrt R (drop i xs)"
    "\<forall>x\<in>set (take i xs). \<forall>y\<in>set (drop i xs). R x y"
    unfolding sorted_wrt_append by blast+
  have "sorted_wrt R (drop (Suc i) xs)"
    using assms by (rule sorted_wrt_drop)
  moreover have "set (drop (Suc i) xs) \<subseteq> set (drop i xs)"
    by (rule set_drop_subset_set_drop) simp
  ultimately show ?thesis
    unfolding splice1_def sorted_wrt_append using parts by blast
qed

lemma set_mutate_found:
  "m \<in> set (mutate_found P f xs) \<Longrightarrow> m \<in> set xs \<or> (\<exists>x\<in>set xs. m = f x)"
  by (induction xs) (auto split: if_splits)

subsection \<open>Every handler keeps the state consistent\<close>

lemma truthy_iff: "truthy v \<longleftrightarrow> (\<exists>n. v = Some n \<and> n \<noteq> [])"
  by (cases v) auto

lemma store_ok_append:
  assumes "store_ok s" "truthy (user m)" "id_m m = messageCount s"
  shows "store_ok (s\<lparr> messageCount := messageCount s + 1,
                       messagesHistory := messagesHistory s @ [m] \<rparr>)"
  using assms unfolding store_ok_def
  by (auto simp: sorted_wrt_append less_Suc_eq)

lemma store_ok_splice:
  assumes "store_ok s"
  shows "store_ok (s\<lparr> messagesHistory := splice1 i (messagesHistory s) \<rparr>)"
  using assms set_splice1 [of i "messagesHistory s"] unfolding store_ok_def
  by (auto simp: map_splice1 sorted_wrt_splice1)

lemma store_ok_mutate:
  assumes "store_ok s" "\<And>m. id_m (f m) = id_m m" "\<And>m. user (f m) = user m"
  shows "store_ok (s\<lparr> messagesHistory := mutate_found P f (messagesHistory s) \<rparr>)"
proof -
  have "map id_m (mutate_found P f (messagesHistory s)) = map id_m (messagesHistory s)"
    by (rule map_mutate_found) (rule assms(2))
  moreover have "id_m m < messageCount s \<and> truthy (user m)"
    if "m \<in> set (mutate_found P f (messagesHistory s))" for m
    using set_mutate_found [OF that] assms unfolding store_ok_def by auto
  ultimately show ?thesis
    using assms(1) unfolding store_ok_def by simp
qed

lemma store_ok_same:
  "store_ok s \<Longrightarrow> messageCount t = messageCount s \<Longrightarrow>
     messagesHistory t = messagesHistory s \<Longrightarrow> store_ok t"
  unfolding store_ok_def by simp

lemma writes_ok_same:
  "writes_ok s \<Longrightarrow> currentUsername t = currentUsername s \<Longrightarrow>
     set (writes t) \<subseteq> set (writes s) \<Longrightarrow> writes_ok t"
  unfolding writes_ok_def by auto

lemma names_ok_same:
  "names_ok s \<Longrightarrow> currentUsername t = currentUsername s \<Longrightarrow>
     onlineUsers t = onlineUsers s \<Longrightarrow> names_ok t"
  unfolding names_ok_def by simp

lemma consistent_set_username:
  assumes "consistent s"
  shows "consistent (fst (set_username c username s))"
proof (cases "username \<noteq> [] \<and> Some username \<noteq> currentUsername s c")
  case False
  with assms show ?thesis by (auto simp: set_username_def)
next
  case True
  define reg where "reg = (case currentUsername s c of
                     None \<Rightarrow> onlineUsers s
                   | Some old \<Rightarrow> if old \<noteq> [] then delete_prop (onlineUsers s) old
                                 else onlineUsers s)"
  define t where "t = s\<lparr> currentUsername := (currentUsername s)(c := Some username),
                onlineUsers := set_prop reg username c \<rparr>"
  from True have eq: "fst (set_username c username s) = t"
    by (simp add: set_username_def t_def reg_def Let_def)
  from assms have "store_ok t"
    unfolding consistent_def by (auto intro: store_ok_same simp: t_def)
  moreover from assms True have "writes_ok t"
    unfolding consistent_def writes_ok_def t_def by auto
  moreover have "names_ok t"
  proof -
    from assms have n: "names_ok s" unfolding consistent_def by simp
    have reg_c: "reg k \<noteq> Some c" for k
    proof (cases "currentUsername s c")
      case None
      with n show ?thesis unfolding names_ok_def reg_def by auto
    next
      case (Some old)
      with n have "old \<noteq> []" unfolding names_ok_def by metis
      with Some n show ?thesis
        unfolding names_ok_def reg_def delete_prop_def by auto
    qed
    have reg_other: "reg k = Some d \<Longrightarrow> onlineUsers s k = Some d" for k d
      unfolding reg_def delete_prop_def by (auto split: option.splits if_splits)
    show ?thesis
      unfolding names_ok_def
    proof (intro conjI allI impI)
      fix d
      show "currentUsername t d \<noteq> Some []"
        using n True unfolding names_ok_def t_def by auto
    next
      fix k d
      assume a: "onlineUsers t k = Some d"
      show "currentUsername t d = Some k"
      proof (cases "k = username \<and> username \<noteq> ''__proto__''")
        case True
        with a show ?thesis by (auto simp: t_def set_prop_def)
      next
        case False
        with a have r: "reg k = Some d"
          by (auto simp: t_def set_prop_def split: if_splits)
        with reg_c have "d \<noteq> c" by auto
        moreover from r n have "currentUsername s d = Some k"
          unfolding names_ok_def using reg_other by blast
        ultimately show ?thesis by (simp add: t_def)
      qed
    qed
  qed
  ultimately show ?thesis
    unfolding eq consistent_def by simp
qed

lemma consistent_disconnect:
  assumes "consistent s"
  shows "consistent (fst (disconnect c s))"
proof -
  have fields: "messageCount (fst (disconnect c s)) = messageCount s"
    "messagesHistory (fst (disconnect c s)) = messagesHistory s"
    "currentUsername (fst (disconnect c s)) = currentUsername s"
    "writes (fst (disconnect c s)) = writes s"
    by (auto simp: disconnect_def split: option.splits)
  have reg: "onlineUsers (fst (disconnect c s)) k = Some d \<Longrightarrow> onlineUsers s k = Some d" for k d
    by (auto simp: disconnect_def delete_prop_def split: option.splits if_splits)
  from assms have "names_ok (fst (disconnect c s))"
    unfolding consistent_def names_ok_def fields using reg by blast
  with assms fields show ?thesis
    unfolding consistent_def
    by (auto intro: store_ok_same writes_ok_same)
qed


lemma consistent_chat_message:
  assumes "consistent s"
  shows "consistent (fst (chat_message c msg now s))"
proof (cases "truthy (currentUsername s c)")
  case False
  with assms show ?thesis by (simp add: chat_message_def)
next
  case True
  define m :: "'a message" where
    "m = \<lparr> id_m = messageCount s, user = currentUsername s c,
           text_m = cp_text msg, replyToId = cp_replyToId msg,
           replyToText = cp_replyToText msg, timestamp = now, seen = False \<rparr>"
  define t where "t = s\<lparr> messageCount := messageCount s + 1,
                         messagesHistory := messagesHistory s @ [m] \<rparr>"
  from True have eq: "fst (chat_message c msg now s) = t"
    by (simp add: chat_message_def t_def m_def Let_def)
  from assms True have "store_ok t"
    unfolding t_def consistent_def by (intro store_ok_append) (simp_all add: m_def)
  moreover from assms have "writes_ok t" "names_ok t"
    unfolding consistent_def
    by (auto intro: writes_ok_same names_ok_same simp: t_def)
  ultimately show ?thesis
    unfolding eq consistent_def by simp
qed

lemma consistent_delete_message:
  assumes "consistent s"
  shows "consistent (fst (delete_message Number c messageId s))"
proof -
  have "fst (delete_message Number c messageId s) = s \<or>
        (\<exists>i. fst (delete_message Number c messageId s)
                = s\<lparr> messagesHistory := splice1 i (messagesHistory s) \<rparr>)"
    by (auto simp: delete_message_def split: option.splits)
  then show ?thesis
  proof
    assume "fst (delete_message Number c messageId s) = s"
    with assms show ?thesis by simp
  next
    assume "\<exists>i. fst (delete_message Number c messageId s)
                = s\<lparr> messagesHistory := splice1 i (messagesHistory s) \<rparr>"
    then obtain i where eq: "fst (delete_message Number c messageId s)
                = s\<lparr> messagesHistory := splice1 i (messagesHistory s) \<rparr>" ..
    from assms have "store_ok (s\<lparr> messagesHistory := splice1 i (messagesHistory s) \<rparr>)"
      unfolding consistent_def by (auto intro: store_ok_splice)
    moreover from assms
    have "writes_ok (s\<lparr> messagesHistory := splice1 i (messagesHistory s) \<rparr>)"
      "names_ok (s\<lparr> messagesHistory := splice1 i (messagesHistory s) \<rparr>)"
      unfolding consistent_def by (auto intro: writes_ok_same names_ok_same)
    ultimately show ?thesis
      unfolding eq consistent_def by simp
  qed
qed

lemma consistent_mutate:
  assumes "consistent s" "\<And>m. id_m (f m) = id_m m" "\<And>m. user (f m) = user m"
  shows "consistent (s\<lparr> messagesHistory := mutate_found P f (messagesHistory s) \<rparr>)"
proof -
  from assms have "store_ok (s\<lparr> messagesHistory := mutate_found P f (messagesHistory s) \<rparr>)"
    unfolding consistent_def by (intro store_ok_mutate) auto
  moreover from assms(1)
  have "writes_ok (s\<lparr> messagesHistory := mutate_found P f (messagesHistory s) \<rparr>)"
    "names_ok (s\<lparr> messagesHistory := mutate_found P f (messagesHistory s) \<rparr>)"
    unfolding consistent_def by (auto intro: writes_ok_same names_ok_same)
  ultimately show ?thesis
    unfolding consistent_def by simp
qed

lemma consistent_edit_message:
  assumes "consistent s"
  shows "consistent (fst (edit_message Number c data_id newText s))"
proof -
  let ?t = "s\<lparr> messagesHistory :=
                 mutate_found (\<lambda>m. Some (id_m m) = Number data_id)
                   (\<lambda>m. m\<lparr> text_m := newText \<rparr>) (messagesHistory s) \<rparr>"
  have "fst (edit_message Number c data_id newText s) = s \<or>
        fst (edit_message Number c data_id newText s) = ?t"
    by (auto simp: edit_message_def split: option.splits)
  moreover from assms have "consistent ?t"
    by (rule consistent_mutate) simp_all
  ultimately show ?thesis
    using assms by auto
qed

lemma consistent_mark_seen:
  assumes "consistent s"
  shows "consistent (fst (mark_seen Number c messageId s))"
proof -
  let ?t = "s\<lparr> messagesHistory :=
                 mutate_found (\<lambda>m. Some (id_m m) = Number messageId)
                   (\<lambda>m. m\<lparr> seen := True \<rparr>) (messagesHistory s) \<rparr>"
  have "fst (mark_seen Number c messageId s) = s \<or>
        fst (mark_seen Number c messageId s) = ?t"
    by (auto simp: mark_seen_def split: option.splits)
  moreover from assms have "consistent ?t"
    by (rule consistent_mutate) simp_all
  ultimately show ?thesis
    using assms by auto
qed

lemma consistent_image_upload:
  assumes "consistent s"
  shows "consistent (fst (image_upload c fileData fileName uniq s))"
proof -
  have "fst (image_upload c fileData fileName uniq s) = s \<or>
        (truthy (currentUsername s c) \<and>
         (\<exists>f. fst (image_upload c fileData fileName uniq s)
                 = s\<lparr> writes := writes s @ [(c, f)] \<rparr>))"
    by (auto simp: image_upload_def Let_def split: option.splits)
  then show ?thesis
  proof
    assume "fst (image_upload c fileData fileName uniq s) = s"
    with assms show ?thesis by simp
  next
    assume "truthy (currentUsername s c) \<and>
         (\<exists>f. fst (image_upload c fileData fileName uniq s)
                 = s\<lparr> writes := writes s @ [(c, f)] \<rparr>)"
    then obtain f where tr: "truthy (currentUsername s c)"
      and eq: "fst (image_upload c fileData fileName uniq s)
                 = s\<lparr> writes := writes s @ [(c, f)] \<rparr>"
      by blast
    from assms tr have "writes_ok (s\<lparr> writes := writes s @ [(c, f)] \<rparr>)"
      unfolding consistent_def writes_ok_def by auto
    moreover from assms have "store_ok (s\<lparr> writes := writes s @ [(c, f)] \<rparr>)"
      "names_ok (s\<lparr> writes := writes s @ [(c, f)] \<rparr>)"
      unfolding consistent_def by (auto intro: store_ok_same names_ok_same)
    ultimately show ?thesis
      unfolding eq consistent_def by simp
  qed
qed

lemma consistent_write_done:
  assumes "consistent s"
  shows "consistent (fst (write_done k err now s))"
proof (cases "k < length (writes s)")
  case False
  with assms show ?thesis by (simp add: write_done_def)
next
  case True
  obtain c newFileName where w: "writes s ! k = (c, newFileName)"
    by (cases "writes s ! k")
  define s1 where "s1 = s\<lparr> writes := splice1 k (writes s) \<rparr>"
  from assms have "writes_ok s" unfolding consistent_def by simp
  with True w have tr: "truthy (currentUsername s c)"
    unfolding writes_ok_def using nth_mem [of k "writes s"] by fastforce
  have c1: "consistent s1"
  proof -
    from assms have "writes_ok s" unfolding consistent_def by simp
    then have "writes_ok s1"
      unfolding s1_def by (rule writes_ok_same) (simp_all add: set_splice1)
    moreover from assms have "store_ok s1" "names_ok s1"
      unfolding consistent_def s1_def by (auto intro: store_ok_same names_ok_same)
    ultimately show ?thesis unfolding consistent_def by simp
  qed
  show ?thesis
  proof (cases err)
    case True
    with \<open>k < length (writes s)\<close> w have "fst (write_done k err now s) = s1"
      by (simp add: write_done_def s1_def)
    with c1 show ?thesis by simp
  next
    case False
    define m :: "'a message" where
      "m = \<lparr> id_m = messageCount s1, user = currentUsername s1 c,
             text_m = ''/uploads/'' @ newFileName, replyToId = None, replyToText = None,
             timestamp = now, seen = False \<rparr>"
    define t where "t = s1\<lparr> messageCount := messageCount s1 + 1,
                            messagesHistory := messagesHistory s1 @ [m] \<rparr>"
    from False \<open>k < length (writes s)\<close> w have eq: "fst (write_done k err now s) = t"
      by (simp add: write_done_def s1_def t_def m_def Let_def)
    from tr have "truthy (user m)" by (simp add: m_def s1_def)
    with c1 have "store_ok t"
      unfolding t_def consistent_def by (intro store_ok_append) (simp_all add: m_def)
    moreover from c1 have "writes_ok t" "names_ok t"
      unfolding consistent_def
      by (auto intro: writes_ok_same names_ok_same simp: t_def)
    ultimately show ?thesis
      unfolding eq consistent_def by simp
  qed
qed

lemma consistent_step:
  "consistent s \<Longrightarrow> consistent (fst (step Number s e))"
  by (cases e)
    (simp_all add: consistent_set_username consistent_disconnect consistent_chat_message
       consistent_delete_message consistent_edit_message consistent_mark_seen
       consistent_image_upload consistent_write_done typing_def stop_typing_def)

lemma consistent_init: "consistent init"
  by (simp add: consistent_def store_ok_def writes_ok_def names_ok_def init_def)

lemma consistent_run_from:
  "consistent s \<Longrightarrow> consistent (fst (run Number s es))"
proof (induction es arbitrary: s)
  case Nil
  then show ?case by simp
next
  case (Cons e es)
  from Cons.prems have "consistent (fst (step Number s e))"
    by (rule consistent_step)
  then have "consistent (fst (run Number (fst (step Number s e)) es))"
    by (rule Cons.IH)
  then show ?case
    by (simp add: split_beta Let_def)
qed

lemma consistent_run: "consistent (fst (run Number init es))"
  using consistent_init by (rule consistent_run_from)

subsection \<open>The handlers on a reachable state\<close>

lemma find_unique:
  "distinct (map k xs) \<Longrightarrow> m \<in> set xs \<Longrightarrow> find (\<lambda>x. k x = k m) xs = Some m"
proof (induction xs)
  case Nil
  then show ?case by simp
next
  case (Cons x xs)
  show ?case
  proof (cases "m = x")
    case True
    then show ?thesis by simp
  next
    case False
    with Cons.prems have in_xs: "m \<in> set xs" and "k x \<notin> k ` set xs" by auto
    then have "k x \<noteq> k m" by (metis imageI)
    with Cons.IH Cons.prems(1) in_xs show ?thesis by simp
  qed
qed

lemma id_test:
  "v = Some (id_m m) \<Longrightarrow> (\<lambda>x. Some (id_m x) = v) = (\<lambda>x. id_m x = id_m m)"
  by (auto simp: fun_eq_iff)

lemma consistent_distinct: "consistent s \<Longrightarrow> distinct (map id_m (messagesHistory s))"
  unfolding consistent_def store_ok_def by (simp add: strict_sorted_iff)

lemma consistent_author: "consistent s \<Longrightarrow> m \<in> set (messagesHistory s) \<Longrightarrow> truthy (user m)"
  unfolding consistent_def store_ok_def by simp

lemma find_absent: "(\<forall>x\<in>set xs. \<not> P x) \<Longrightarrow> find P xs = None"
  by (simp add: find_None_iff)

lemma delete_message_absent:
  "\<forall>m\<in>set (messagesHistory s). Some (id_m m) \<noteq> Number p \<Longrightarrow>
     delete_message Number c p s = (s, [])"
  using findIndex_None [of "\<lambda>m. Some (id_m m) = Number p" "messagesHistory s"]
  by (simp add: delete_message_def)

lemma edit_message_absent:
  "\<forall>m\<in>set (messagesHistory s). Some (id_m m) \<noteq> Number p \<Longrightarrow>
     edit_message Number c p t s = (s, [])"
  by (simp add: edit_message_def find_absent)

lemma mark_seen_absent:
  "\<forall>m\<in>set (messagesHistory s). Some (id_m m) \<noteq> Number p \<Longrightarrow>
     mark_seen Number c p s = (s, [])"
  by (simp add: mark_seen_def find_absent)

lemma found_message:
  assumes "consistent s" "m \<in> set (messagesHistory s)" "v = Some (id_m m)"
  shows "find (\<lambda>x. Some (id_m x) = v) (messagesHistory s) = Some m"
  unfolding id_test [OF assms(3)]
  using consistent_distinct [OF assms(1)] assms(2) by (rule find_unique)

lemma delete_message_present:
  assumes "consistent s" "m \<in> set (messagesHistory s)" "Some (id_m m) = Number p"
  shows "delete_message Number c p s =
     (if user m = currentUsername s c
      then (s\<lparr> messagesHistory := filter (\<lambda>x. id_m x \<noteq> id_m m) (messagesHistory s) \<rparr>,
            [ToAll (DeleteMsg p)])
      else (s, []))"
proof -
  let ?P = "\<lambda>x. Some (id_m x) = Number p"
  from assms(3) have v: "Number p = Some (id_m m)" by simp
  from found_message [OF assms(1,2) v] obtain i
    where i: "findIndex ?P (messagesHistory s) = Some i" and at: "messagesHistory s ! i = m"
    unfolding find_findIndex by auto
  from findIndex_Some [OF i] have "i < length (messagesHistory s)" by simp
  with consistent_distinct [OF assms(1)]
  have "splice1 i (messagesHistory s)
          = filter (\<lambda>x. id_m x \<noteq> id_m (messagesHistory s ! i)) (messagesHistory s)"
    by (rule splice1_filter)
  with i at show ?thesis by (simp add: delete_message_def)
qed

lemma edit_message_present:
  assumes "consistent s" "m \<in> set (messagesHistory s)" "Some (id_m m) = Number p"
  shows "edit_message Number c p t s =
     (if user m = currentUsername s c
      then (s\<lparr> messagesHistory :=
                  map (\<lambda>x. if id_m x = id_m m then x\<lparr> text_m := t \<rparr> else x)
                    (messagesHistory s) \<rparr>,
            [ToAll (EditConfirmed p t)])
      else (s, []))"
proof -
  from assms(3) have v: "Number p = Some (id_m m)" by simp
  have f: "find (\<lambda>x. Some (id_m x) = Number p) (messagesHistory s) = Some m"
    using assms(1,2) v by (rule found_message)
  then have f': "find (\<lambda>x. id_m x = id_m m) (messagesHistory s) = Some m"
    unfolding id_test [OF v] .
  have "mutate_found (\<lambda>x. id_m x = id_m m) (\<lambda>x. x\<lparr> text_m := t \<rparr>) (messagesHistory s)
          = map (\<lambda>x. if id_m x = id_m m then x\<lparr> text_m := t \<rparr> else x) (messagesHistory s)"
    using consistent_distinct [OF assms(1)] f' by (rule mutate_found_map)
  then have "mutate_found (\<lambda>x. Some (id_m x) = Number p) (\<lambda>x. x\<lparr> text_m := t \<rparr>)
               (messagesHistory s)
          = map (\<lambda>x. if id_m x = id_m m then x\<lparr> text_m := t \<rparr> else x) (messagesHistory s)"
    unfolding id_test [OF v] .
  with f show ?thesis by (simp add: edit_message_def)
qed

lemma mark_seen_present:
  assumes "consistent s" "m \<in> set (messagesHistory s)" "Some (id_m m) = Number p"
  shows "mark_seen Number c p s =
     (if \<not> seen m \<and> user m \<noteq> currentUsername s c
      then (s\<lparr> messagesHistory :=
                  map (\<lambda>x. if id_m x = id_m m then x\<lparr> seen := True \<rparr> else x)
                    (messagesHistory s) \<rparr>,
            [ToAll (MessageSeen (id_m m))])
      else (s, []))"
proof -
  from assms(3) have v: "Number p = Some (id_m m)" by simp
  have f: "find (\<lambda>x. Some (id_m x) = Number p) (messagesHistory s) = Some m"
    using assms(1,2) v by (rule found_message)
  then have f': "find (\<lambda>x. id_m x = id_m m) (messagesHistory s) = Some m"
    unfolding id_test [OF v] .
  have "mutate_found (\<lambda>x. id_m x = id_m m) (\<lambda>x. x\<lparr> seen := True \<rparr>) (messagesHistory s)
          = map (\<lambda>x. if id_m x = id_m m then x\<lparr> seen := True \<rparr> else x) (messagesHistory s)"
    using consistent_distinct [OF assms(1)] f' by (rule mutate_found_map)
  then have "mutate_found (\<lambda>x. Some (id_m x) = Number p) (\<lambda>x. x\<lparr> seen := True \<rparr>)
               (messagesHistory s)
          = map (\<lambda>x. if id_m x = id_m m then x\<lparr> seen := True \<rparr> else x) (messagesHistory s)"
    unfolding id_test [OF v] .
  with f show ?thesis by (simp add: mark_seen_def)
qed

lemma step_keeps_unnamed:
  "\<not> sets_name c e \<Longrightarrow> currentUsername (fst (step Number s e)) c = currentUsername s c"
  by (cases e)
    (auto simp: set_username_def disconnect_def chat_message_def delete_message_def
       edit_message_def mark_seen_def typing_def stop_typing_def image_upload_def
       write_done_def Let_def split: option.splits prod.splits)

lemma run_keeps_unnamed:
  "\<forall>e\<in>set es. \<not> sets_name c e \<Longrightarrow>
     currentUsername (fst (run Number s es)) c = currentUsername s c"
proof (induction es arbitrary: s)
  case Nil
  then show ?case by simp
next
  case (Cons e es)
  from Cons.prems have "\<not> sets_name c e" "\<forall>e\<in>set es. \<not> sets_name c e" by simp_all
  with Cons.IH [of "fst (step Number s e)"] step_keeps_unnamed [of c e Number s]
  show ?case by (simp add: split_beta Let_def)
qed

lemma unnamed_after_run:
  "\<forall>e\<in>set es. \<not> sets_name c e \<Longrightarrow> currentUsername (fst (run Number init es)) c = None"
  using run_keeps_unnamed [of es c Number init] by (simp add: init_def)

subsection \<open>The scenario, evaluated\<close>

lemma alice_bob_history: "messagesHistory (fst (run Some init alice_bob)) = [hi_msg]"
  by (simp add: alice_bob_def init_def set_username_def set_prop_def chat_message_def
    hi_def hi_msg_def Let_def)

lemma alice_bob_names:
  "currentUsername (fst (run Some init alice_bob)) ''A'' = Some ''alice''"
  "currentUsername (fst (run Some init alice_bob)) ''B'' = Some ''bob''"
  "currentUsername (fst (run Some init alice_bob)) ''C'' = None"
  by (simp_all add: alice_bob_def init_def set_username_def set_prop_def chat_message_def
    Let_def)

subsection \<open>File names\<close>

lemma split_from_nonempty: "split_from sep seg s \<noteq> []"
  by (induction sep seg s rule: split_from.induct) auto

lemma pop_Some: "xs \<noteq> [] \<Longrightarrow> \<exists>x. pop xs = Some x"
  by (induction xs) auto

lemma extension_defined: "\<exists>ext. extension fileName = Some ext"
proof -
  have "split fileName ''.'' \<noteq> []"
    by (simp add: split_def split_from_nonempty)
  from pop_Some [OF this] show ?thesis
    by (auto simp: extension_def)
qed

lemma extension_examples:
  "extension ''cat.PNG'' = Some ''png''"
  "extension ''archive.tar.gz'' = Some ''gz''"
  "extension ''png'' = Some ''png''"
  by code_simp+

subsection \<open>The store along a run\<close>

lemma created_append: "created (xs @ ys) = created xs @ created ys"
  by (induction xs rule: created.induct) simp_all

lemma deleted_append: "deleted Number (xs @ ys) = deleted Number xs @ deleted Number ys"
  by (induction Number xs rule: deleted.induct) (simp_all split: option.splits)

lemma effect_set_username: "unchanged_store Number s (set_username c username s)"
  by (simp add: unchanged_store_def set_username_def Let_def)

lemma effect_disconnect: "unchanged_store Number s (disconnect c s)"
  by (simp add: unchanged_store_def disconnect_def split: option.splits)

lemma effect_typing:
  "unchanged_store Number s (typing c username s)"
  "unchanged_store Number s (stop_typing c username s)"
  by (simp_all add: unchanged_store_def typing_def stop_typing_def)

lemma effect_image_upload: "unchanged_store Number s (image_upload c fileData fileName uniq s)"
  by (simp add: unchanged_store_def image_upload_def Let_def split: option.splits)

lemma effect_chat_message:
  "unchanged_store Number s (chat_message c msg now s) \<or>
   appended Number s (chat_message c msg now s)"
  by (simp add: unchanged_store_def appended_def chat_message_def Let_def)

lemma effect_write_done:
  "unchanged_store Number s (write_done k err now s) \<or>
   (\<not> err \<and> appended Number s (write_done k err now s))"
  by (simp add: unchanged_store_def appended_def write_done_def Let_def split: prod.splits)

lemma effect_edit_message:
  "unchanged_store Number s (edit_message Number c p t s)"
  by (simp add: unchanged_store_def edit_message_def map_mutate_found split: option.splits)

lemma effect_mark_seen:
  "unchanged_store Number s (mark_seen Number c p s)"
  by (simp add: unchanged_store_def mark_seen_def map_mutate_found split: option.splits)

lemma effect_delete_message:
  assumes "consistent s"
  shows "unchanged_store Number s (delete_message Number c p s) \<or>
         removed Number s (delete_message Number c p s)"
proof (cases "\<exists>m\<in>set (messagesHistory s). Some (id_m m) = Number p")
  case False
  then have "\<forall>m\<in>set (messagesHistory s). Some (id_m m) \<noteq> Number p" by simp
  then have "delete_message Number c p s = (s, [])"
    by (rule delete_message_absent)
  then show ?thesis by (simp add: unchanged_store_def)
next
  case True
  then obtain m where m: "m \<in> set (messagesHistory s)" "Some (id_m m) = Number p" ..
  from m(2) have v: "Number p = Some (id_m m)" by simp
  note eq = delete_message_present [of s m Number p c, OF assms m]
  show ?thesis
  proof (cases "user m = currentUsername s c")
    case False
    with eq show ?thesis by (simp add: unchanged_store_def)
  next
    case True
    with eq m(1) v have "removed Number s (delete_message Number c p s)"
      unfolding removed_def by auto
    then show ?thesis ..
  qed
qed

lemma step_effect:
  assumes "consistent s"
  shows "unchanged_store Number s (step Number s e) \<or>
         (creates e \<and> appended Number s (step Number s e)) \<or>
         removed Number s (step Number s e)"
proof (cases e)
  case (DeleteMessage c p)
  with effect_delete_message [OF assms, of Number c p] show ?thesis by auto
next
  case (ChatMessage c msg now)
  with effect_chat_message [of Number s c msg now] show ?thesis by auto
next
  case (WriteDone k err now)
  with effect_write_done [of Number s k err now] show ?thesis by auto
qed (simp_all add: effect_set_username effect_disconnect effect_typing effect_image_upload
       effect_edit_message effect_mark_seen)

lemma trace_ok_step:
  assumes ok: "trace_ok Number (s, out)" and cons: "consistent s"
  shows "trace_ok Number (fst (step Number s e), out @ snd (step Number s e))"
proof -
  let ?r = "step Number s e"
  from ok have cr: "map id_m (created out) = [0..<messageCount s]"
    and st: "map id_m (messagesHistory s)
               = filter (\<lambda>i. i \<notin> set (deleted Number out)) [0..<messageCount s]"
    and dl: "\<forall>i\<in>set (deleted Number out). i < messageCount s"
    unfolding trace_ok_def by simp_all
  from step_effect [OF cons, of Number e]
  consider (same) "unchanged_store Number s ?r" | (app) "appended Number s ?r"
    | (del) "removed Number s ?r" by blast
  then show ?thesis
  proof cases
    case same
    with cr st dl show ?thesis
      unfolding trace_ok_def unchanged_store_def
      by (simp add: created_append deleted_append)
  next
    case app
    then obtain m where m: "id_m m = messageCount s"
      "messagesHistory (fst ?r) = messagesHistory s @ [m]" "created (snd ?r) = [m]"
      and cnt: "messageCount (fst ?r) = messageCount s + 1"
      and nod: "deleted Number (snd ?r) = []"
      unfolding appended_def by auto
    from dl have "messageCount s \<notin> set (deleted Number out)" by auto
    with cr st dl m cnt nod show ?thesis
      unfolding trace_ok_def
      by (auto simp: created_append deleted_append less_Suc_eq)
  next
    case del
    then obtain m where m: "m \<in> set (messagesHistory s)"
      "messagesHistory (fst ?r) = filter (\<lambda>x. id_m x \<noteq> id_m m) (messagesHistory s)"
      "deleted Number (snd ?r) = [id_m m]"
      and cnt: "messageCount (fst ?r) = messageCount s"
      and noc: "created (snd ?r) = []"
      unfolding removed_def by auto
    have "map id_m (filter (\<lambda>x. id_m x \<noteq> id_m m) (messagesHistory s))
            = filter (\<lambda>i. i \<noteq> id_m m) (map id_m (messagesHistory s))"
      by (simp add: filter_map comp_def)
    also have "\<dots> = filter (\<lambda>i. i \<notin> set (deleted Number out @ [id_m m])) [0..<messageCount s]"
      unfolding st by (auto intro: filter_cong)
    finally have st': "map id_m (messagesHistory (fst ?r))
        = filter (\<lambda>i. i \<notin> set (deleted Number (out @ snd ?r))) [0..<messageCount (fst ?r)]"
      unfolding m(2) cnt by (simp add: deleted_append m(3))
    from cons m(1) have "id_m m < messageCount s"
      unfolding consistent_def store_ok_def by simp
    with dl have dl': "\<forall>i\<in>set (deleted Number (out @ snd ?r)). i < messageCount (fst ?r)"
      by (auto simp: deleted_append m(3) cnt)
    from cr have "map id_m (created (out @ snd ?r)) = [0..<messageCount (fst ?r)]"
      by (simp add: created_append noc cnt)
    with st' dl' show ?thesis
      unfolding trace_ok_def by simp
  qed
qed

lemma trace_ok_run: "trace_ok Number (run Number init evs)"
proof (induction evs rule: rev_induct)
  case Nil
  show ?case by (simp add: trace_ok_def init_def)
next
  case (snoc e evs)
  obtain s out where r: "run Number init evs = (s, out)"
    by (cases "run Number init evs")
  have "consistent s"
    using consistent_run [of Number evs] r by simp
  with snoc r have "trace_ok Number (fst (step Number s e), out @ snd (step Number s e))"
    by (intro trace_ok_step) simp_all
  then show ?case
    by (simp add: run_snoc r split_beta)
qed

lemma count_le_creating_events:
  "messageCount (fst (run Number init evs)) \<le> length (filter creates evs)"
proof (induction evs rule: rev_induct)
  case Nil
  show ?case by (simp add: init_def)
next
  case (snoc e evs)
  obtain s out where r: "run Number init evs = (s, out)"
    by (cases "run Number init evs")
  have "consistent s"
    using consistent_run [of Number evs] r by simp
  from step_effect [OF this, of Number e]
  have "messageCount (fst (step Number s e)) \<le> messageCount s + (if creates e then 1 else 0)"
    unfolding unchanged_store_def appended_def removed_def by auto
  with snoc r show ?case
    by (auto simp: run_snoc split_beta split: if_splits)
qed

lemma busy_day_facts:
  "messageCount (fst (run Some init busy_day)) = 3"
  "deleted Some (snd (run Some init busy_day)) = [0]"
  by code_simp+

lemma pop_split_defined: "sep \<noteq> [] \<Longrightarrow> \<exists>x. pop (split s sep) = Some x"
  by (rule pop_Some) (simp add: split_def split_from_nonempty)

lemma upload_pending_facts:
  "messageCount (fst (run Some init upload_pending)) = 1"
  "messagesHistory (fst (run Some init upload_pending)) = [hi_msg]"
  "writes (fst (run Some init upload_pending)) = [(''B'', ''1700000000000_k3x9.png'')]"
  "currentUsername (fst (run Some init upload_pending)) ''B'' = Some ''bob''"
  "snd (run Some init upload_pending)
     = [ToSocket ''A'' (LoadHistory []), ToSocket ''B'' (LoadHistory []), ToAll (ChatMsg hi_msg)]"
  by code_simp+

subsection \<open>The seen flag only rises\<close>

lemma seen_kept_append:
  assumes "\<forall>m\<in>set xs. id_m m = i \<longrightarrow> seen m" "i < n" "id_m x = n"
  shows "\<forall>m\<in>set (xs @ [x]). id_m m = i \<longrightarrow> seen m"
  using assms by auto

lemma seen_kept_mutate:
  assumes "\<forall>m\<in>set xs. id_m m = i \<longrightarrow> seen m"
    and "\<And>x. id_m (f x) = id_m x" and "\<And>x. seen x \<Longrightarrow> seen (f x)"
  shows "\<forall>m\<in>set (mutate_found P f xs). id_m m = i \<longrightarrow> seen m"
proof (intro ballI impI)
  fix m assume m: "m \<in> set (mutate_found P f xs)" "id_m m = i"
  from set_mutate_found [OF m(1)] show "seen m"
  proof
    assume "m \<in> set xs"
    with assms(1) m(2) show ?thesis by simp
  next
    assume "\<exists>x\<in>set xs. m = f x"
    then obtain x where x: "x \<in> set xs" "m = f x" ..
    with m(2) assms(2) have "id_m x = i" by simp
    with assms(1) x(1) have "seen x" by simp
    with x(2) assms(3) show ?thesis by simp
  qed
qed

lemma seen_kept_splice:
  assumes "\<forall>m\<in>set xs. id_m m = i \<longrightarrow> seen m"
  shows "\<forall>m\<in>set (splice1 k xs). id_m m = i \<longrightarrow> seen m"
  using assms set_splice1 [of k xs] by auto

lemma seen_kept_step:
  assumes "\<forall>m\<in>set (messagesHistory s). id_m m = i \<longrightarrow> seen m" and "i < messageCount s"
  shows "(\<forall>m\<in>set (messagesHistory (fst (step Number s e))). id_m m = i \<longrightarrow> seen m) \<and>
         i < messageCount (fst (step Number s e))"
proof (cases e)
  case (SetUsername c username)
  with assms show ?thesis by (simp add: set_username_def Let_def)
next
  case (Disconnect c)
  with assms show ?thesis by (simp add: disconnect_def split: option.splits)
next
  case (ChatMessage c msg now)
  with assms seen_kept_append [OF assms] show ?thesis
    by (simp add: chat_message_def Let_def)
next
  case (DeleteMessage c p)
  with assms seen_kept_splice [OF assms(1)] show ?thesis
    by (simp add: delete_message_def split: option.splits)
next
  case (EditMessage c p t)
  have "\<forall>m\<in>set (mutate_found (\<lambda>m. Some (id_m m) = Number p) (\<lambda>m. m\<lparr> text_m := t \<rparr>)
           (messagesHistory s)). id_m m = i \<longrightarrow> seen m"
    using assms(1) by (rule seen_kept_mutate) simp_all
  with EditMessage assms show ?thesis
    by (simp add: edit_message_def split: option.splits)
next
  case (MarkSeen c p)
  have "\<forall>m\<in>set (mutate_found (\<lambda>m. Some (id_m m) = Number p) (\<lambda>m. m\<lparr> seen := True \<rparr>)
           (messagesHistory s)). id_m m = i \<longrightarrow> seen m"
    using assms(1) by (rule seen_kept_mutate) simp_all
  with MarkSeen assms show ?thesis
    by (simp add: mark_seen_def split: option.splits)
next
  case (TypingEv c username)
  with assms show ?thesis by (simp add: typing_def)
next
  case (StopTypingEv c username)
  with assms show ?thesis by (simp add: stop_typing_def)
next
  case (ImageUpload c fileData fileName uniq)
  with assms show ?thesis
    by (simp add: image_upload_def Let_def split: option.splits)
next
  case (WriteDone k err now)
  with assms seen_kept_append [OF assms] show ?thesis
    by (simp add: write_done_def Let_def split_beta)
qed

lemma seen_kept_run:
  assumes "\<forall>m\<in>set (messagesHistory s). id_m m = i \<longrightarrow> seen m" and "i < messageCount s"
  shows "\<forall>m\<in>set (messagesHistory (fst (run Number s es))). id_m m = i \<longrightarrow> seen m"
  using assms
proof (induction es arbitrary: s)
  case Nil
  then show ?case by simp
next
  case (Cons e es)
  from seen_kept_step [OF Cons.prems, of Number e]
  have "\<forall>m\<in>set (messagesHistory (fst (run Number (fst (step Number s e)) es))).
          id_m m = i \<longrightarrow> seen m"
    by (intro Cons.IH) simp_all
  then show ?case by (simp add: split_beta Let_def)
qed

subsection \<open>The source's extension against the specification's\<close>

lemma split_from_no_dot:
  "CHR ''.'' \<notin> set s \<Longrightarrow> split_from ''.'' seg s = [seg @ s]"
  by (induction s arbitrary: seg) auto

lemma pop_Cons_nonempty: "xs \<noteq> [] \<Longrightarrow> pop (x # xs) = pop xs"
  by simp



lemma extension_of_dotless:
  "CHR ''.'' \<notin> set n \<Longrightarrow> extension n = Some (toLowerCase n)"
  by (simp add: extension_def split_def split_from_no_dot)


lemma spec_extension_dotted:
  assumes "stem \<noteq> []" "CHR ''.'' \<notin> set e"
  shows "spec_extension (stem @ ''.'' @ e) = Some e"
proof -
  let ?P = "\<lambda>ch. ch \<noteq> CHR ''.''"
  have r: "rev (stem @ ''.'' @ e) = rev e @ CHR ''.'' # rev stem" by simp
  have t: "takeWhile ?P (rev e @ CHR ''.'' # rev stem) = rev e"
    using takeWhile_append2 [of "rev e" ?P "CHR ''.'' # rev stem"] assms(2) by auto
  have d: "dropWhile ?P (rev e @ CHR ''.'' # rev stem) = CHR ''.'' # rev stem"
    using dropWhile_append2 [of "rev e" ?P "CHR ''.'' # rev stem"] assms(2) by auto
  show ?thesis
    unfolding spec_extension_def r t d using assms(1) by simp
qed


section \<open>The claims\<close>

subsection \<open>C1: release on disconnect\<close>

text \<open>
  C1 as stated says that a disconnect removes a registry entry only when the entry's
  value is the disconnecting connection's identifier, also when the connection's bound
  name was re-claimed by another connection. The handler deletes
  \<open>onlineUsers[currentUsername]\<close> without reading the value: after A and B both claimed
  the name x, the entry under x points at B, and the disconnect of A removes it.
\<close>

theorem disconnect_removes_reclaimed_entry:
  "onlineUsers (fst (run Some (init :: nat state)
       [SetUsername ''A'' ''x'', SetUsername ''B'' ''x''])) ''x'' = Some ''B''
   \<and> onlineUsers (fst (run Some (init :: nat state)
       [SetUsername ''A'' ''x'', SetUsername ''B'' ''x'', Disconnect ''A''])) ''x'' = None"
  by code_simp

text \<open>
  C1, amended: in every state a run reaches, after the disconnect of connection \<open>c\<close>
  no registry entry has the identifier of \<open>c\<close> as its value; every entry under a name
  other than the bound name of \<open>c\<close> is unchanged; the entry under the bound name of
  \<open>c\<close> is removed whichever connection it points at, and \<open>user disconnected\<close> with that
  name goes to all connections; a connection without a bound name changes nothing and
  emits nothing.
\<close>

theorem disconnect_releases_bound_name:
  assumes "s = fst (run Number init evs)" and "s' = fst (disconnect c s)"
  shows "(\<forall>k. onlineUsers s' k \<noteq> Some c) \<and>
         (\<forall>k. Some k \<noteq> currentUsername s c \<longrightarrow> onlineUsers s' k = onlineUsers s k) \<and>
         (\<forall>name. currentUsername s c = Some name \<longrightarrow>
            onlineUsers s' name = None \<and>
            snd (disconnect c s) = [ToAll (UserDisconnected (Some name))]) \<and>
         (currentUsername s c = None \<longrightarrow> disconnect c s = (s, []))"
proof -
  have "consistent s" unfolding assms(1) by (rule consistent_run)
  then have n: "names_ok s" unfolding consistent_def by simp
  then have nonempty: "currentUsername s c \<noteq> Some []"
    and owner: "\<And>k. onlineUsers s k = Some c \<Longrightarrow> currentUsername s c = Some k"
    unfolding names_ok_def by blast+
  have "onlineUsers s' k \<noteq> Some c" for k
  proof (cases "currentUsername s c")
    case None
    with owner [of k] show ?thesis
      unfolding assms(2) by (auto simp: disconnect_def)
  next
    case (Some name)
    with nonempty have "name \<noteq> []" by auto
    with Some owner [of k] show ?thesis
      unfolding assms(2) by (auto simp: disconnect_def delete_prop_def)
  qed
  moreover have "onlineUsers s' k = onlineUsers s k" if "Some k \<noteq> currentUsername s c" for k
    using that unfolding assms(2)
    by (auto simp: disconnect_def delete_prop_def split: option.splits)
  moreover have "onlineUsers s' name = None \<and>
            snd (disconnect c s) = [ToAll (UserDisconnected (Some name))]"
    if "currentUsername s c = Some name" for name
    using that nonempty unfolding assms(2)
    by (auto simp: disconnect_def delete_prop_def)
  moreover have "currentUsername s c = None \<longrightarrow> disconnect c s = (s, [])"
    by (simp add: disconnect_def)
  ultimately show ?thesis by blast
qed

theorem disconnect_releases_bound_name_witness:
  "onlineUsers (fst (disconnect ''A'' (fst (run Some (init :: nat state)
       [SetUsername ''A'' ''x'', SetUsername ''B'' ''y'']))))  ''x'' = None
   \<and> onlineUsers (fst (disconnect ''A'' (fst (run Some (init :: nat state)
       [SetUsername ''A'' ''x'', SetUsername ''B'' ''y'']))))  ''y'' = Some ''B''
   \<and> snd (disconnect ''A'' (fst (run Some (init :: nat state)
       [SetUsername ''A'' ''x'', SetUsername ''B'' ''y''])))
       = [ToAll (UserDisconnected (Some ''x''))]"
proof -
  define s where "s = fst (run Some (init :: nat state)
       [SetUsername ''A'' ''x'', SetUsername ''B'' ''y''])"
  have cur: "currentUsername s ''A'' = Some ''x''"
    and reg: "onlineUsers s ''y'' = Some ''B''"
    unfolding s_def by code_simp+
  from disconnect_releases_bound_name [OF s_def refl, of "''A''"] cur reg
  show ?thesis unfolding s_def [symmetric] by simp
qed

subsection \<open>C2: set username\<close>

text \<open>
  C2 as stated says that set username has no validation and succeeds for every name
  that differs from the bound name, the empty string included. The handler tests
  \<open>username && ...\<close>: the empty string is falsy, so the event is ignored. The second
  half of the counterexample is the one name a plain object does not take as a key:
  after \<open>onlineUsers['__proto__'] = socket.id\<close> the registry has no such entry.
\<close>

theorem empty_username_ignored:
  "currentUsername (init :: nat state) ''A'' \<noteq> Some ''''
   \<and> onlineUsers (fst (set_username ''A'' '''' (init :: nat state))) '''' \<noteq> Some ''A''
   \<and> currentUsername (fst (set_username ''A'' '''' (init :: nat state))) ''A'' \<noteq> Some ''''
   \<and> snd (set_username ''A'' '''' (init :: nat state)) = []
   \<and> currentUsername (init :: nat state) ''A'' \<noteq> Some ''__proto__''
   \<and> onlineUsers (fst (set_username ''A'' ''__proto__'' (init :: nat state))) ''__proto__''
       \<noteq> Some ''A''"
  by (simp add: set_username_def set_prop_def init_def)

text \<open>
  C2, amended: the empty name is ignored (no change of state, nothing emitted). For every
  connection \<open>c\<close>, in every state a run reaches, and every non-empty name (a name of
  white space included) that differs from the bound name of \<open>c\<close>, the claim succeeds:
  the name becomes the bound name of \<open>c\<close>, the registry entry under the prior bound name
  is deleted, for every name other than \<open>__proto__\<close> the entry under the new name points
  at \<open>c\<close>, every other entry, every other connection's bound name and the message store
  are unchanged, and the history goes to the sender alone.
\<close>

theorem set_username_claims:
  assumes "s = fst (run Number init evs)" and "s' = fst (set_username c username s)"
  shows "(username = [] \<longrightarrow> set_username c username s = (s, [])) \<and>
         (username \<noteq> [] \<and> Some username \<noteq> currentUsername s c \<longrightarrow>
            currentUsername s' c = Some username \<and>
            (username \<noteq> ''__proto__'' \<longrightarrow> onlineUsers s' username = Some c) \<and>
            (\<forall>old. currentUsername s c = Some old \<longrightarrow> onlineUsers s' old = None) \<and>
            (\<forall>k. k \<noteq> username \<and> Some k \<noteq> currentUsername s c \<longrightarrow>
               onlineUsers s' k = onlineUsers s k) \<and>
            (\<forall>d. d \<noteq> c \<longrightarrow> currentUsername s' d = currentUsername s d) \<and>
            messageCount s' = messageCount s \<and>
            messagesHistory s' = messagesHistory s \<and>
            writes s' = writes s \<and>
            snd (set_username c username s) = [ToSocket c (LoadHistory (messagesHistory s))])"
proof (intro conjI impI)
  show "username = [] \<Longrightarrow> set_username c username s = (s, [])"
    by (simp add: set_username_def)
next
  assume ok: "username \<noteq> [] \<and> Some username \<noteq> currentUsername s c"
  have "consistent s" unfolding assms(1) by (rule consistent_run)
  then have nonempty: "currentUsername s c \<noteq> Some []"
    unfolding consistent_def names_ok_def by blast
  define reg where "reg = (case currentUsername s c of
                     None \<Rightarrow> onlineUsers s
                   | Some old \<Rightarrow> if old \<noteq> [] then delete_prop (onlineUsers s) old
                                 else onlineUsers s)"
  from ok have eq: "set_username c username s =
      (s\<lparr> currentUsername := (currentUsername s)(c := Some username),
          onlineUsers := set_prop reg username c \<rparr>,
       [ToSocket c (LoadHistory (messagesHistory s))])"
    by (simp add: set_username_def reg_def Let_def)
  show "currentUsername s' c = Some username"
    "messageCount s' = messageCount s" "messagesHistory s' = messagesHistory s"
    "writes s' = writes s"
    "snd (set_username c username s) = [ToSocket c (LoadHistory (messagesHistory s))]"
    "\<forall>d. d \<noteq> c \<longrightarrow> currentUsername s' d = currentUsername s d"
    unfolding assms(2) eq by simp_all
  show "username \<noteq> ''__proto__'' \<Longrightarrow> onlineUsers s' username = Some c"
    unfolding assms(2) eq by (simp add: set_prop_def)
  show "\<forall>old. currentUsername s c = Some old \<longrightarrow> onlineUsers s' old = None"
  proof (intro allI impI)
    fix old assume old: "currentUsername s c = Some old"
    with nonempty ok have "old \<noteq> []" "old \<noteq> username" by auto
    with old show "onlineUsers s' old = None"
      unfolding assms(2) eq by (simp add: set_prop_def reg_def delete_prop_def)
  qed
  show "\<forall>k. k \<noteq> username \<and> Some k \<noteq> currentUsername s c \<longrightarrow>
               onlineUsers s' k = onlineUsers s k"
    unfolding assms(2) eq
    by (auto simp: set_prop_def reg_def delete_prop_def split: option.splits)
qed

theorem set_username_claims_witness:
  "currentUsername (fst (set_username ''A'' '' '' (fst (run Some (init :: nat state)
       [SetUsername ''A'' ''x'', SetUsername ''B'' ''y''])))) ''A'' = Some '' ''
   \<and> onlineUsers (fst (set_username ''A'' '' '' (fst (run Some (init :: nat state)
       [SetUsername ''A'' ''x'', SetUsername ''B'' ''y''])))) '' '' = Some ''A''
   \<and> onlineUsers (fst (set_username ''A'' '' '' (fst (run Some (init :: nat state)
       [SetUsername ''A'' ''x'', SetUsername ''B'' ''y''])))) ''x'' = None
   \<and> onlineUsers (fst (set_username ''A'' '' '' (fst (run Some (init :: nat state)
       [SetUsername ''A'' ''x'', SetUsername ''B'' ''y''])))) ''y'' = Some ''B''
   \<and> snd (set_username ''A'' '' '' (fst (run Some (init :: nat state)
       [SetUsername ''A'' ''x'', SetUsername ''B'' ''y''])))
       = [ToSocket ''A'' (LoadHistory [])]"
proof -
  define s where "s = fst (run Some (init :: nat state)
       [SetUsername ''A'' ''x'', SetUsername ''B'' ''y''])"
  have cur: "currentUsername s ''A'' = Some ''x''"
    and reg: "onlineUsers s ''y'' = Some ''B''"
    and h: "messagesHistory s = []"
    unfolding s_def by code_simp+
  from set_username_claims [OF s_def refl, of "'' ''" "''A''"] cur reg h
  show ?thesis unfolding s_def [symmetric] by simp
qed

subsection \<open>C3: edit and delete are the author's\<close>

text \<open>
  C3: in every state a run reaches, for every identifier payload and every requester:
  when no stored message has the identifier, or the stored message's author is not the
  requester's bound name, delete and edit leave the whole state unchanged and emit
  nothing; when the message is there and its author is the requester's bound name,
  delete removes exactly that message and edit replaces exactly its text, and the result
  goes to all connections. A stored author is never \<open>null\<close>, so a requester without a
  name matches no message.
\<close>

theorem edit_delete_only_by_author:
  assumes "s = fst (run Number init evs)"
  shows "((\<forall>m\<in>set (messagesHistory s). Some (id_m m) \<noteq> Number p) \<longrightarrow>
            delete_message Number c p s = (s, []) \<and>
            edit_message Number c p t s = (s, [])) \<and>
         (\<forall>m\<in>set (messagesHistory s). Some (id_m m) = Number p \<longrightarrow>
            user m \<noteq> None \<and>
            (if user m = currentUsername s c then
               delete_message Number c p s =
                 (s\<lparr> messagesHistory :=
                       filter (\<lambda>x. id_m x \<noteq> id_m m) (messagesHistory s) \<rparr>,
                  [ToAll (DeleteMsg p)]) \<and>
               edit_message Number c p t s =
                 (s\<lparr> messagesHistory :=
                       map (\<lambda>x. if id_m x = id_m m then x\<lparr> text_m := t \<rparr> else x)
                         (messagesHistory s) \<rparr>,
                  [ToAll (EditConfirmed p t)])
             else
               delete_message Number c p s = (s, []) \<and>
               edit_message Number c p t s = (s, [])))"
proof (intro conjI impI ballI)
  assume "\<forall>m\<in>set (messagesHistory s). Some (id_m m) \<noteq> Number p"
  then show "delete_message Number c p s = (s, [])" "edit_message Number c p t s = (s, [])"
    by (rule delete_message_absent, rule edit_message_absent)
next
  fix m
  assume m: "m \<in> set (messagesHistory s)" "Some (id_m m) = Number p"
  have c: "consistent s" unfolding assms by (rule consistent_run)
  from consistent_author [OF c m(1)] show "user m \<noteq> None" by (auto simp: truthy_iff)
  show "if user m = currentUsername s c then
               delete_message Number c p s =
                 (s\<lparr> messagesHistory :=
                       filter (\<lambda>x. id_m x \<noteq> id_m m) (messagesHistory s) \<rparr>,
                  [ToAll (DeleteMsg p)]) \<and>
               edit_message Number c p t s =
                 (s\<lparr> messagesHistory :=
                       map (\<lambda>x. if id_m x = id_m m then x\<lparr> text_m := t \<rparr> else x)
                         (messagesHistory s) \<rparr>,
                  [ToAll (EditConfirmed p t)])
             else
               delete_message Number c p s = (s, []) \<and>
               edit_message Number c p t s = (s, [])"
    using delete_message_present [of s m Number p c, OF c m]
      edit_message_present [of s m Number p c t, OF c m]
    by simp
qed

theorem edit_delete_only_by_author_witness:
  "delete_message Some ''B'' 0 (fst (run Some init alice_bob))
     = (fst (run Some init alice_bob), [])
   \<and> edit_message Some ''B'' 0 ''yo'' (fst (run Some init alice_bob))
     = (fst (run Some init alice_bob), [])
   \<and> delete_message Some ''A'' 7 (fst (run Some init alice_bob))
     = (fst (run Some init alice_bob), [])
   \<and> delete_message Some ''A'' 0 (fst (run Some init alice_bob))
     = ((fst (run Some init alice_bob))\<lparr> messagesHistory := [] \<rparr>, [ToAll (DeleteMsg 0)])
   \<and> edit_message Some ''A'' 0 ''yo'' (fst (run Some init alice_bob))
     = ((fst (run Some init alice_bob))\<lparr> messagesHistory := [hi_msg\<lparr> text_m := ''yo'' \<rparr>] \<rparr>,
        [ToAll (EditConfirmed 0 ''yo'')])"
proof -
  define s where "s = fst (run Some init alice_bob)"
  note facts = alice_bob_history [folded s_def] alice_bob_names [folded s_def]
  from edit_delete_only_by_author [OF s_def, of 0 "''B''" "''yo''"] facts
  have b: "delete_message Some ''B'' 0 s = (s, [])" "edit_message Some ''B'' 0 ''yo'' s = (s, [])"
    by (simp_all add: hi_msg_def)
  from edit_delete_only_by_author [OF s_def, of 7 "''A''" "''yo''"] facts
  have a7: "delete_message Some ''A'' 7 s = (s, [])"
    by (simp add: hi_msg_def)
  from edit_delete_only_by_author [OF s_def, of 0 "''A''" "''yo''"] facts
  have a0: "delete_message Some ''A'' 0 s = (s\<lparr> messagesHistory := [] \<rparr>, [ToAll (DeleteMsg 0)])"
    "edit_message Some ''A'' 0 ''yo'' s
       = (s\<lparr> messagesHistory := [hi_msg\<lparr> text_m := ''yo'' \<rparr>] \<rparr>, [ToAll (EditConfirmed 0 ''yo'')])"
    by (simp_all add: hi_msg_def)
  from b a7 a0 show ?thesis unfolding s_def by simp
qed

subsection \<open>C5: mark seen\<close>

text \<open>
  C5: in every state a run reaches, mark seen succeeds exactly when a stored message has
  the identifier, its \<open>seen\<close> flag is false and its author differs from the reader's bound
  name. On success the flag of exactly that message becomes true and the identifier goes
  to all connections; from then on, whatever events follow, a call for that identifier by
  any connection changes nothing and emits nothing; so does every call by the author, on
  a message already seen, or on an identifier that is not stored.
\<close>

theorem mark_seen_once_by_reader:
  assumes "s = fst (run Number init evs)"
  shows "((\<forall>m\<in>set (messagesHistory s). Some (id_m m) \<noteq> Number p) \<longrightarrow>
            mark_seen Number c p s = (s, [])) \<and>
         (\<forall>m\<in>set (messagesHistory s). Some (id_m m) = Number p \<longrightarrow>
            (if \<not> seen m \<and> user m \<noteq> currentUsername s c then
               mark_seen Number c p s =
                 (s\<lparr> messagesHistory :=
                       map (\<lambda>x. if id_m x = id_m m then x\<lparr> seen := True \<rparr> else x)
                         (messagesHistory s) \<rparr>,
                  [ToAll (MessageSeen (id_m m))]) \<and>
               (\<forall>later c' p'. Number p' = Number p \<longrightarrow>
                  mark_seen Number c' p'
                      (fst (run Number (fst (mark_seen Number c p s)) later))
                    = (fst (run Number (fst (mark_seen Number c p s)) later), []))
             else mark_seen Number c p s = (s, [])))"
proof (intro conjI impI ballI)
  assume "\<forall>m\<in>set (messagesHistory s). Some (id_m m) \<noteq> Number p"
  then show "mark_seen Number c p s = (s, [])"
    by (rule mark_seen_absent)
next
  fix m
  assume m: "m \<in> set (messagesHistory s)" "Some (id_m m) = Number p"
  have c: "consistent s" unfolding assms by (rule consistent_run)
  let ?g = "\<lambda>x. if id_m x = id_m m then x\<lparr> seen := True \<rparr> else x"
  let ?s2 = "s\<lparr> messagesHistory := map ?g (messagesHistory s) \<rparr>"
  note here = mark_seen_present [of s m Number p c, OF c m]
  show "if \<not> seen m \<and> user m \<noteq> currentUsername s c then
               mark_seen Number c p s = (?s2, [ToAll (MessageSeen (id_m m))]) \<and>
               (\<forall>later c' p'. Number p' = Number p \<longrightarrow>
                  mark_seen Number c' p'
                      (fst (run Number (fst (mark_seen Number c p s)) later))
                    = (fst (run Number (fst (mark_seen Number c p s)) later), []))
             else mark_seen Number c p s = (s, [])"
  proof (cases "\<not> seen m \<and> user m \<noteq> currentUsername s c")
    case False
    with here show ?thesis by simp
  next
    case True
    with here have first: "mark_seen Number c p s = (?s2, [ToAll (MessageSeen (id_m m))])"
      by simp
    have c2: "consistent ?s2"
      using consistent_mark_seen [OF c, of Number c p] first by simp
    have seen2: "\<forall>x\<in>set (messagesHistory ?s2). id_m x = id_m m \<longrightarrow> seen x"
      by auto
    from c m(1) have below: "id_m m < messageCount ?s2"
      unfolding consistent_def store_ok_def by simp
    have again: "mark_seen Number c' p' (fst (run Number ?s2 later))
                   = (fst (run Number ?s2 later), [])"
      if same: "Number p' = Number p" for later c' p'
    proof -
      let ?s3 = "fst (run Number ?s2 later)"
      have c3: "consistent ?s3" using c2 by (rule consistent_run_from)
      have seen3: "\<forall>x\<in>set (messagesHistory ?s3). id_m x = id_m m \<longrightarrow> seen x"
        using seen2 below by (rule seen_kept_run)
      show ?thesis
      proof (cases "\<exists>x\<in>set (messagesHistory ?s3). Some (id_m x) = Number p'")
        case False
        then have "\<forall>x\<in>set (messagesHistory ?s3). Some (id_m x) \<noteq> Number p'" by simp
        then show ?thesis by (rule mark_seen_absent)
      next
        case True
        then obtain x where x: "x \<in> set (messagesHistory ?s3)" "Some (id_m x) = Number p'" ..
        from x(2) same m(2) have "Some (id_m x) = Some (id_m m)" by (simp only:)
        then have "id_m x = id_m m" by simp
        with seen3 x(1) have "seen x" by simp
        with mark_seen_present [of ?s3 x Number p' c', OF c3 x] show ?thesis by simp
      qed
    qed
    from True first again show ?thesis by simp
  qed
qed

theorem mark_seen_once_by_reader_witness:
  "mark_seen Some ''B'' 5 (fst (run Some init alice_bob))
     = (fst (run Some init alice_bob), [])
   \<and> mark_seen Some ''A'' 0 (fst (run Some init alice_bob))
     = (fst (run Some init alice_bob), [])
   \<and> mark_seen Some ''B'' 0 (fst (run Some init alice_bob))
     = ((fst (run Some init alice_bob))\<lparr> messagesHistory := [hi_msg\<lparr> seen := True \<rparr>] \<rparr>,
        [ToAll (MessageSeen 0)])
   \<and> mark_seen Some ''B'' 0
        (fst (run Some (fst (mark_seen Some ''B'' 0 (fst (run Some init alice_bob))))
                [ChatMessage ''A'' hi ''09:05 AM'']))
     = (fst (run Some (fst (mark_seen Some ''B'' 0 (fst (run Some init alice_bob))))
                [ChatMessage ''A'' hi ''09:05 AM'']), [])"
proof -
  define s where "s = fst (run Some init alice_bob)"
  note facts = alice_bob_history [folded s_def] alice_bob_names [folded s_def]
  from mark_seen_once_by_reader [OF s_def, of 5 "''B''"] facts
  have b5: "mark_seen Some ''B'' 5 s = (s, [])"
    by (simp add: hi_msg_def)
  from mark_seen_once_by_reader [OF s_def, of 0 "''A''"] facts
  have a0: "mark_seen Some ''A'' 0 s = (s, [])"
    by (simp add: hi_msg_def)
  have mem: "hi_msg \<in> set (messagesHistory s)"
    and new: "map (\<lambda>x. if id_m x = id_m hi_msg then x\<lparr> seen := True \<rparr> else x)
                (messagesHistory s) = [hi_msg\<lparr> seen := True \<rparr>]"
    and cond: "\<not> seen hi_msg \<and> user hi_msg \<noteq> currentUsername s ''B''"
    and idm: "Some (id_m hi_msg) = Some 0"
    using facts by (simp_all add: hi_msg_def)
  from mark_seen_once_by_reader [OF s_def, of 0 "''B''"]
  have "\<forall>m\<in>set (messagesHistory s). Some (id_m m) = Some 0 \<longrightarrow>
            (if \<not> seen m \<and> user m \<noteq> currentUsername s ''B'' then
               mark_seen Some ''B'' 0 s =
                 (s\<lparr> messagesHistory :=
                       map (\<lambda>x. if id_m x = id_m m then x\<lparr> seen := True \<rparr> else x)
                         (messagesHistory s) \<rparr>,
                  [ToAll (MessageSeen (id_m m))]) \<and>
               (\<forall>later c' p'. Some p' = Some 0 \<longrightarrow>
                  mark_seen Some c' p' (fst (run Some (fst (mark_seen Some ''B'' 0 s)) later))
                    = (fst (run Some (fst (mark_seen Some ''B'' 0 s)) later), []))
             else mark_seen Some ''B'' 0 s = (s, []))"
    by (rule conjunct2)
  from bspec [OF this mem] idm
  have "if \<not> seen hi_msg \<and> user hi_msg \<noteq> currentUsername s ''B'' then
               mark_seen Some ''B'' 0 s =
                 (s\<lparr> messagesHistory :=
                       map (\<lambda>x. if id_m x = id_m hi_msg then x\<lparr> seen := True \<rparr> else x)
                         (messagesHistory s) \<rparr>,
                  [ToAll (MessageSeen (id_m hi_msg))]) \<and>
               (\<forall>later c' p'. Some p' = Some 0 \<longrightarrow>
                  mark_seen Some c' p' (fst (run Some (fst (mark_seen Some ''B'' 0 s)) later))
                    = (fst (run Some (fst (mark_seen Some ''B'' 0 s)) later), []))
             else mark_seen Some ''B'' 0 s = (s, [])"
    by (rule mp)
  then have both: "mark_seen Some ''B'' 0 s =
                 (s\<lparr> messagesHistory := [hi_msg\<lparr> seen := True \<rparr>] \<rparr>,
                  [ToAll (MessageSeen (id_m hi_msg))]) \<and>
               (\<forall>later c' p'. Some p' = Some 0 \<longrightarrow>
                  mark_seen Some c' p' (fst (run Some (fst (mark_seen Some ''B'' 0 s)) later))
                    = (fst (run Some (fst (mark_seen Some ''B'' 0 s)) later), []))"
    unfolding if_P [OF cond] new .
  then have b0: "mark_seen Some ''B'' 0 s
       = (s\<lparr> messagesHistory := [hi_msg\<lparr> seen := True \<rparr>] \<rparr>, [ToAll (MessageSeen 0)])"
    by (simp add: hi_msg_def)
  from both have again: "mark_seen Some ''B'' 0
        (fst (run Some (fst (mark_seen Some ''B'' 0 s)) [ChatMessage ''A'' hi ''09:05 AM'']))
     = (fst (run Some (fst (mark_seen Some ''B'' 0 s)) [ChatMessage ''A'' hi ''09:05 AM'']), [])"
    by blast
  from b5 a0 b0 again show ?thesis unfolding s_def by blast
qed

subsection \<open>C9: what an edit leaves alone\<close>

text \<open>
  C9: in every state a run reaches, an edit that succeeds (it confirms to all
  connections) leaves the counter, the registry, the bound names and the writes in flight
  unchanged; the store keeps its length and its order; at every position the identifier,
  author, timestamp, replyToId, replyToText and seen flag are what they were; the message
  with the edited identifier has the new text and every other message is unchanged.
\<close>

theorem edit_changes_text_only:
  assumes "s = fst (run Number init evs)"
    and "edit_message Number c p t s = (s', out)"
    and "out \<noteq> []"
  shows "messageCount s' = messageCount s \<and> onlineUsers s' = onlineUsers s \<and>
         currentUsername s' = currentUsername s \<and> writes s' = writes s \<and>
         length (messagesHistory s') = length (messagesHistory s) \<and>
         (\<forall>i<length (messagesHistory s).
            id_m (messagesHistory s' ! i) = id_m (messagesHistory s ! i) \<and>
            user (messagesHistory s' ! i) = user (messagesHistory s ! i) \<and>
            timestamp (messagesHistory s' ! i) = timestamp (messagesHistory s ! i) \<and>
            replyToId (messagesHistory s' ! i) = replyToId (messagesHistory s ! i) \<and>
            replyToText (messagesHistory s' ! i) = replyToText (messagesHistory s ! i) \<and>
            seen (messagesHistory s' ! i) = seen (messagesHistory s ! i) \<and>
            (if Some (id_m (messagesHistory s ! i)) = Number p
             then text_m (messagesHistory s' ! i) = t
             else messagesHistory s' ! i = messagesHistory s ! i))"
proof -
  have c: "consistent s" unfolding assms(1) by (rule consistent_run)
  have "\<exists>m\<in>set (messagesHistory s). Some (id_m m) = Number p"
  proof (rule ccontr)
    assume "\<not> (\<exists>m\<in>set (messagesHistory s). Some (id_m m) = Number p)"
    then have "\<forall>m\<in>set (messagesHistory s). Some (id_m m) \<noteq> Number p" by simp
    from edit_message_absent [where s = s and Number = Number and p = p and c = c and t = t]
      this assms(2,3) show False by simp
  qed
  then obtain m where m: "m \<in> set (messagesHistory s)" "Some (id_m m) = Number p" ..
  let ?g = "\<lambda>x. if id_m x = id_m m then x\<lparr> text_m := t \<rparr> else x"
  from edit_message_present [of s m Number p c t, OF c m] assms(2,3)
  have s': "s' = s\<lparr> messagesHistory := map ?g (messagesHistory s) \<rparr>"
    by (auto split: if_splits)
  from m(2) have v: "Number p = Some (id_m m)" by simp
  have test: "Some (id_m x) = Number p \<longleftrightarrow> id_m x = id_m m" for x
    unfolding v by simp
  show ?thesis
    unfolding s' by (simp add: test)
qed

theorem edit_changes_text_only_witness:
  "messagesHistory (fst (edit_message Some ''A'' 0 ''yo'' (fst (run Some init alice_bob)))) ! 0
     = hi_msg\<lparr> text_m := ''yo'' \<rparr>
   \<and> id_m (messagesHistory
        (fst (edit_message Some ''A'' 0 ''yo'' (fst (run Some init alice_bob)))) ! 0) = 0
   \<and> user (messagesHistory
        (fst (edit_message Some ''A'' 0 ''yo'' (fst (run Some init alice_bob)))) ! 0)
       = Some ''alice''
   \<and> timestamp (messagesHistory
        (fst (edit_message Some ''A'' 0 ''yo'' (fst (run Some init alice_bob)))) ! 0)
       = ''09:00 AM''
   \<and> seen (messagesHistory
        (fst (edit_message Some ''A'' 0 ''yo'' (fst (run Some init alice_bob)))) ! 0) = False"
proof -
  define s where "s = fst (run Some init alice_bob)"
  note facts = alice_bob_history [folded s_def] alice_bob_names [folded s_def]
  obtain s' out where e: "edit_message Some ''A'' 0 ''yo'' s = (s', out)"
    by (cases "edit_message Some ''A'' 0 ''yo'' s")
  with facts have out: "out \<noteq> []"
    by (auto simp: edit_message_def hi_msg_def)
  from facts e have new: "messagesHistory s' = [hi_msg\<lparr> text_m := ''yo'' \<rparr>]"
    by (auto simp: edit_message_def hi_msg_def)
  from edit_changes_text_only [OF s_def e out] facts new
  show ?thesis unfolding s_def [symmetric] e by (simp add: hi_msg_def)
qed

subsection \<open>C6: a connection without a name\<close>

text \<open>
  C6: a connection that never sent \<open>set username\<close> with a non-empty name has no bound
  name, and in every state a run reaches its chat message, delete message, edit message
  and image upload leave the whole state unchanged (registry, store, counter, writes in
  flight) and emit nothing, to the sender or to anyone.
\<close>

theorem unnamed_connection_is_ignored:
  assumes "\<forall>e\<in>set evs. \<not> sets_name c e" and "s = fst (run Number init evs)"
  shows "currentUsername s c = None \<and>
         chat_message c msg now s = (s, []) \<and>
         delete_message Number c p s = (s, []) \<and>
         edit_message Number c p t s = (s, []) \<and>
         image_upload c fileData fileName uniq s = (s, [])"
proof -
  have cons: "consistent s" unfolding assms(2) by (rule consistent_run)
  have none: "currentUsername s c = None"
    unfolding assms(2) using assms(1) by (rule unnamed_after_run)
  have chat: "chat_message c msg now s = (s, [])"
    by (simp add: chat_message_def none)
  have img: "image_upload c fileData fileName uniq s = (s, [])"
    by (simp add: image_upload_def none)
  have "delete_message Number c p s = (s, []) \<and> edit_message Number c p t s = (s, [])"
  proof (cases "\<exists>m\<in>set (messagesHistory s). Some (id_m m) = Number p")
    case False
    then have absent: "\<forall>m\<in>set (messagesHistory s). Some (id_m m) \<noteq> Number p" by simp
    from absent have "delete_message Number c p s = (s, [])"
      by (rule delete_message_absent)
    moreover from absent have "edit_message Number c p t s = (s, [])"
      by (rule edit_message_absent)
    ultimately show ?thesis ..
  next
    case True
    then obtain m where m: "m \<in> set (messagesHistory s)" "Some (id_m m) = Number p" ..
    from consistent_author [OF cons m(1)] none have "user m \<noteq> currentUsername s c"
      by (auto simp: truthy_iff)
    with delete_message_present [of s m Number p c, OF cons m]
      edit_message_present [of s m Number p c t, OF cons m]
    show ?thesis by simp
  qed
  with none chat img show ?thesis by simp
qed

theorem unnamed_connection_is_ignored_witness:
  "currentUsername (fst (run Some init alice_bob)) ''C'' = None
   \<and> chat_message ''C'' hi ''09:01 AM'' (fst (run Some init alice_bob))
       = (fst (run Some init alice_bob), [])
   \<and> delete_message Some ''C'' 0 (fst (run Some init alice_bob))
       = (fst (run Some init alice_bob), [])
   \<and> edit_message Some ''C'' 0 ''yo'' (fst (run Some init alice_bob))
       = (fst (run Some init alice_bob), [])
   \<and> image_upload ''C'' ''data:image/png;base64,AAAA'' ''cat.png'' ''1_x''
         (fst (run Some init alice_bob))
       = (fst (run Some init alice_bob), [])"
proof -
  have "\<forall>e\<in>set alice_bob. \<not> sets_name ''C'' e"
    by (simp add: alice_bob_def)
  from unnamed_connection_is_ignored [OF this refl] show ?thesis .
qed

subsection \<open>C10: mark seen needs no name\<close>

text \<open>
  C10: a connection that never sent \<open>set username\<close> with a non-empty name can mark any
  stored message that is not seen yet: its bound name is \<open>null\<close>, which no stored author
  equals, so the flag of that message becomes true and \<open>message seen\<close> with its
  identifier goes to all connections.
\<close>

theorem unnamed_connection_marks_seen:
  assumes "\<forall>e\<in>set evs. \<not> sets_name c e" and "s = fst (run Number init evs)"
    and "m \<in> set (messagesHistory s)" and "\<not> seen m" and "Number p = Some (id_m m)"
  shows "currentUsername s c = None \<and>
         mark_seen Number c p s =
           (s\<lparr> messagesHistory :=
                 map (\<lambda>x. if id_m x = id_m m then x\<lparr> seen := True \<rparr> else x)
                   (messagesHistory s) \<rparr>,
            [ToAll (MessageSeen (id_m m))])"
proof -
  have cons: "consistent s" unfolding assms(2) by (rule consistent_run)
  have none: "currentUsername s c = None"
    unfolding assms(2) using assms(1) by (rule unnamed_after_run)
  from consistent_author [OF cons assms(3)] none have "user m \<noteq> currentUsername s c"
    by (auto simp: truthy_iff)
  moreover from assms(5) have "Some (id_m m) = Number p" by simp
  ultimately show ?thesis
    using mark_seen_present [of s m Number p c, OF cons assms(3)] assms(4) none
    by simp
qed

theorem unnamed_connection_marks_seen_witness:
  "currentUsername (fst (run Some init alice_bob)) ''C'' = None
   \<and> mark_seen Some ''C'' 0 (fst (run Some init alice_bob))
       = ((fst (run Some init alice_bob))\<lparr> messagesHistory := [hi_msg\<lparr> seen := True \<rparr>] \<rparr>,
          [ToAll (MessageSeen 0)])"
proof -
  define s where "s = fst (run Some init alice_bob)"
  note facts = alice_bob_history [folded s_def]
  have unnamed: "\<forall>e\<in>set alice_bob. \<not> sets_name ''C'' e"
    by (simp add: alice_bob_def)
  have mem: "hi_msg \<in> set (messagesHistory s)"
    and unseen: "\<not> seen hi_msg"
    and idm: "Some 0 = Some (id_m hi_msg)"
    and new: "map (\<lambda>x. if id_m x = id_m hi_msg then x\<lparr> seen := True \<rparr> else x)
                (messagesHistory s) = [hi_msg\<lparr> seen := True \<rparr>]"
    using facts by (simp_all add: hi_msg_def)
  from unnamed_connection_marks_seen [OF unnamed s_def mem unseen idm]
  show ?thesis unfolding new s_def [symmetric] by (simp add: hi_msg_def)
qed

subsection \<open>C7: the extension allow-list\<close>




subsection \<open>C4: identifiers\<close>

text \<open>
  C4: in every run, the identifiers of the messages created (text messages and completed
  image uploads alike, in the order of their creation) are \<open>0, 1, 2, ...\<close> up to the
  counter: strictly increasing and never repeated, whatever was deleted in between. The
  store, which is what the history snapshot returns, holds in creation order the
  identifiers created, without exactly those a deletion announced.
\<close>

theorem identifiers_increase_never_reused:
  assumes "run Number init evs = (s, out)"
  shows "map id_m (created out) = [0..<messageCount s] \<and>
         sorted_wrt (<) (map id_m (created out)) \<and>
         distinct (map id_m (created out)) \<and>
         map id_m (messagesHistory s)
           = filter (\<lambda>i. i \<notin> set (deleted Number out)) (map id_m (created out)) \<and>
         sorted_wrt (<) (map id_m (messagesHistory s))"
proof -
  from trace_ok_run [of Number evs] assms
  have cr: "map id_m (created out) = [0..<messageCount s]"
    and st: "map id_m (messagesHistory s)
               = filter (\<lambda>i. i \<notin> set (deleted Number out)) [0..<messageCount s]"
    unfolding trace_ok_def by simp_all
  have "sorted_wrt (<) [0..<messageCount s]"
    by (rule sorted_wrt_upt)
  moreover have "sorted_wrt (<) (filter (\<lambda>i. i \<notin> set (deleted Number out)) [0..<messageCount s])"
    by (rule sorted_wrt_filter) (rule sorted_wrt_upt)
  ultimately show ?thesis
    unfolding cr st by simp
qed

theorem identifiers_increase_never_reused_witness:
  "map id_m (created (snd (run Some init busy_day))) = [0, 1, 2]
   \<and> map id_m (messagesHistory (fst (run Some init busy_day))) = [1, 2]"
proof -
  have upt: "[0..<3] = [0, 1, 2::nat]" by code_simp
  from identifiers_increase_never_reused [OF prod.collapse [symmetric], of Some busy_day]
  show ?thesis
    unfolding busy_day_facts by (simp add: upt)
qed

subsection \<open>C8: an upload's message waits for the write\<close>

text \<open>
  C8: the handler of image upload never touches the counter or the store and emits
  nothing; an accepted upload only registers the write in flight. A completion with an
  error leaves the counter and the store unchanged and emits nothing. A completion
  without error of a write in flight is the step that takes the next identifier, appends
  the message (its text the upload's URL) and sends that same message to all
  connections; a completion for no write in flight does nothing. Along a run, the number
  of identifiers given out is at most the number of chat message events and error-free
  completions.
\<close>

theorem upload_message_after_write:
  "(messageCount (fst (image_upload c fileData fileName uniq s)) = messageCount s \<and>
    messagesHistory (fst (image_upload c fileData fileName uniq s)) = messagesHistory s \<and>
    snd (image_upload c fileData fileName uniq s) = []) \<and>
   (truthy (currentUsername s c) \<and> extension fileName = Some ext \<and>
    ext \<in> set allowed_extensions \<longrightarrow>
      image_upload c fileData fileName uniq s
        = (s\<lparr> writes := writes s @ [(c, uniq @ ''.'' @ ext)] \<rparr>, [])) \<and>
   (messageCount (fst (write_done k True now s)) = messageCount s \<and>
    messagesHistory (fst (write_done k True now s)) = messagesHistory s \<and>
    snd (write_done k True now s) = []) \<and>
   (k < length (writes s) \<longrightarrow>
      (\<exists>m. write_done k False now s
             = (s\<lparr> writes := splice1 k (writes s),
                    messageCount := messageCount s + 1,
                    messagesHistory := messagesHistory s @ [m] \<rparr>,
                [ToAll (ChatMsg m)]) \<and>
           id_m m = messageCount s \<and>
           user m = currentUsername s (fst (writes s ! k)) \<and>
           text_m m = ''/uploads/'' @ snd (writes s ! k) \<and>
           replyToId m = None \<and> replyToText m = None \<and>
           timestamp m = now \<and> \<not> seen m)) \<and>
   (\<not> k < length (writes s) \<longrightarrow> write_done k err now s = (s, [])) \<and>
   messageCount (fst (run Number init evs)) \<le> length (filter creates evs)"
proof (intro conjI impI)
  show "messageCount (fst (image_upload c fileData fileName uniq s)) = messageCount s"
    "messagesHistory (fst (image_upload c fileData fileName uniq s)) = messagesHistory s"
    "snd (image_upload c fileData fileName uniq s) = []"
    by (simp_all add: image_upload_def Let_def split: option.splits)
next
  assume a: "truthy (currentUsername s c) \<and> extension fileName = Some ext \<and>
    ext \<in> set allowed_extensions"
  obtain base64Data where "pop (split fileData '';base64,'') = Some base64Data"
    using pop_split_defined [of "'';base64,''" fileData] by auto
  with a show "image_upload c fileData fileName uniq s
        = (s\<lparr> writes := writes s @ [(c, uniq @ ''.'' @ ext)] \<rparr>, [])"
    by (simp add: image_upload_def Let_def)
next
  show "messageCount (fst (write_done k True now s)) = messageCount s"
    "messagesHistory (fst (write_done k True now s)) = messagesHistory s"
    "snd (write_done k True now s) = []"
    by (simp_all add: write_done_def split_beta)
next
  assume k: "k < length (writes s)"
  let ?m = "\<lparr> id_m = messageCount s, user = currentUsername s (fst (writes s ! k)),
              text_m = ''/uploads/'' @ snd (writes s ! k), replyToId = None,
              replyToText = None, timestamp = now, seen = False \<rparr> :: 'a message"
  from k have "write_done k False now s
             = (s\<lparr> writes := splice1 k (writes s),
                    messageCount := messageCount s + 1,
                    messagesHistory := messagesHistory s @ [?m] \<rparr>,
                [ToAll (ChatMsg ?m)])"
    by (simp add: write_done_def split_beta Let_def)
  then show "\<exists>m. write_done k False now s
             = (s\<lparr> writes := splice1 k (writes s),
                    messageCount := messageCount s + 1,
                    messagesHistory := messagesHistory s @ [m] \<rparr>,
                [ToAll (ChatMsg m)]) \<and>
           id_m m = messageCount s \<and>
           user m = currentUsername s (fst (writes s ! k)) \<and>
           text_m m = ''/uploads/'' @ snd (writes s ! k) \<and>
           replyToId m = None \<and> replyToText m = None \<and>
           timestamp m = now \<and> \<not> seen m"
    by (intro exI [of _ ?m]) simp
next
  show "\<not> k < length (writes s) \<Longrightarrow> write_done k err now s = (s, [])"
    by (simp add: write_done_def)
next
  show "messageCount (fst (run Number init evs)) \<le> length (filter creates evs)"
    by (rule count_le_creating_events)
qed

theorem upload_message_after_write_witness:
  "messagesHistory (fst (run Some init upload_pending)) = [hi_msg]
   \<and> created (snd (run Some init upload_pending)) = [hi_msg]
   \<and> messagesHistory (fst (write_done 0 True ''09:02 AM'' (fst (run Some init upload_pending))))
       = [hi_msg]
   \<and> snd (write_done 0 True ''09:02 AM'' (fst (run Some init upload_pending))) = []
   \<and> messagesHistory (fst (write_done 0 False ''09:02 AM'' (fst (run Some init upload_pending))))
       = [hi_msg, cat_msg]
   \<and> snd (write_done 0 False ''09:02 AM'' (fst (run Some init upload_pending)))
       = [ToAll (ChatMsg cat_msg)]"
proof -
  define s where "s = fst (run Some init upload_pending)"
  note facts = upload_pending_facts [folded s_def]
  note inst = upload_message_after_write [of "''B''" "''data:image/png;base64,iVBORw0KGgo=''"
      "''cat.PNG''" "''1700000000000_k3x9''" s "''png''" 0 "''09:02 AM''" False Some "[]"]
  from inst have failed:
    "messagesHistory (fst (write_done 0 True ''09:02 AM'' s)) = messagesHistory s"
    "snd (write_done 0 True ''09:02 AM'' s) = []"
    by blast+
  from inst facts obtain m where m:
    "write_done 0 False ''09:02 AM'' s
       = (s\<lparr> writes := splice1 0 (writes s), messageCount := messageCount s + 1,
              messagesHistory := messagesHistory s @ [m] \<rparr>, [ToAll (ChatMsg m)])"
    "id_m m = messageCount s" "user m = currentUsername s (fst (writes s ! 0))"
    "text_m m = ''/uploads/'' @ snd (writes s ! 0)"
    "replyToId m = None" "replyToText m = None" "timestamp m = ''09:02 AM''" "\<not> seen m"
    by auto
  from m(2-) facts have "m = cat_msg"
    by (simp add: cat_msg_def)
  with m(1) failed facts show ?thesis
    unfolding s_def [symmetric] by simp
qed

end
